theory Spec2Isabelle
  imports Main "HOL-Library.Char_ord" "HOL-Library.List_Lexorder" "HOL-Library.AList"
    "HOL-Library.Sublist"
begin

section \<open>Python strings\<close>

text \<open>
  A Python \<open>str\<close> is modelled as a \<open>string\<close> whose characters are the code points
  0 to 255. The character classes below are those of Python 3 on that range:
  \<open>str.isspace\<close> (which is also the class \<open>\s\<close> of \<open>re\<close> on \<open>str\<close> patterns), the line
  boundaries of \<open>str.splitlines\<close>, and the class \<open>\w\<close> of \<open>re\<close>.
\<close>

definition is_space :: "char \<Rightarrow> bool" where
  "is_space c = (c \<in> set [CHR 0x09, CHR 0x0A, CHR 0x0B, CHR 0x0C, CHR 0x0D, CHR 0x1C,
     CHR 0x1D, CHR 0x1E, CHR 0x1F, CHR 0x20, CHR 0x85, CHR 0xA0])"

definition is_linebreak :: "char \<Rightarrow> bool" where
  "is_linebreak c = (c \<in> set [CHR 0x0A, CHR 0x0B, CHR 0x0C, CHR 0x0D, CHR 0x1C,
     CHR 0x1D, CHR 0x1E, CHR 0x85])"

definition is_word :: "char \<Rightarrow> bool" where
  "is_word c = (let n = (of_char c :: nat) in
     (48 \<le> n \<and> n \<le> 57) \<or> (65 \<le> n \<and> n \<le> 90) \<or> n = 95 \<or> (97 \<le> n \<and> n \<le> 122) \<or>
     n \<in> set [0xAA, 0xB2, 0xB3, 0xB5, 0xB9, 0xBA, 0xBC, 0xBD, 0xBE] \<or>
     (0xC0 \<le> n \<and> n \<le> 0xD6) \<or> (0xD8 \<le> n \<and> n \<le> 0xF6) \<or> (0xF8 \<le> n \<and> n \<le> 0xFF))"

text \<open>\<open>str.lower\<close> on one character (A-Z, and the capital letters of Latin-1).\<close>

definition lower_char :: "char \<Rightarrow> char" where
  "lower_char c = (let n = (of_char c :: nat) in
     if (65 \<le> n \<and> n \<le> 90) \<or> (0xC0 \<le> n \<and> n \<le> 0xDE \<and> n \<noteq> 0xD7)
     then char_of (n + 32) else c)"

definition lower :: "string \<Rightarrow> string" where
  "lower s = map lower_char s"

text \<open>\<open>sep.join(xs)\<close>.\<close>

fun join :: "'a list \<Rightarrow> 'a list list \<Rightarrow> 'a list" where
  "join sep [] = []"
| "join sep [x] = x"
| "join sep (x # y # ys) = x @ sep @ join sep (y # ys)"

text \<open>\<open>s.rstrip()\<close> and \<open>s.strip()\<close>.\<close>

definition rstrip :: "string \<Rightarrow> string" where
  "rstrip s = rev (dropWhile is_space (rev s))"

definition strip :: "string \<Rightarrow> string" where
  "strip s = dropWhile is_space (rstrip s)"

text \<open>
  \<open>s.splitlines()\<close>: the text is cut at every line boundary, a carriage return followed
  by a line feed is one boundary, and a boundary at the very end opens no further line.
\<close>

fun drop_break :: "string \<Rightarrow> string" where
  "drop_break [] = []"
| "drop_break [c] = []"
| "drop_break (c # d # cs) = (if c = CHR 0x0D \<and> d = CHR 0x0A then cs else d # cs)"

lemma length_drop_break: "length (drop_break s) \<le> length s"
  by (cases s rule: drop_break.cases) auto

lemma length_drop_break_less: "s \<noteq> [] \<Longrightarrow> length (drop_break s) < length s"
  by (cases s rule: drop_break.cases) auto

function splitlines :: "string \<Rightarrow> string list" where
  "splitlines s =
     (if s = [] then []
      else takeWhile (\<lambda>c. \<not> is_linebreak c) s
           # splitlines (drop_break (dropWhile (\<lambda>c. \<not> is_linebreak c) s)))"
  by pat_completeness auto
termination
proof (relation "measure length")
  show "wf (measure length)" by simp
next
  fix s :: string
  assume ne: "s \<noteq> []"
  let ?d = "dropWhile (\<lambda>c. \<not> is_linebreak c) s"
  have le: "length ?d \<le> length s" by (rule length_dropWhile_le)
  show "(drop_break ?d, s) \<in> measure length"
  proof (cases "?d = []")
    case True
    then have "length (drop_break ?d) = 0" by (simp only: drop_break.simps list.size)
    with ne show ?thesis by simp
  next
    case False
    from length_drop_break_less [OF False] le show ?thesis by simp
  qed
qed

declare splitlines.simps [simp del]

text \<open>\<open>s[:k]\<close>: a negative \<open>k\<close> counts from the end.\<close>

definition slice_to :: "string \<Rightarrow> int \<Rightarrow> string" where
  "slice_to s k = (if 0 \<le> k then take (nat k) s else take (nat (int (length s) + k)) s)"

text \<open>
  \<open>int(a / b)\<close> for integers \<open>a\<close> and \<open>b\<close>. Python divides in floating point: the quotient
  of two integers is the double nearest to the exact quotient, a tie going to the even
  significand, and the division raises \<open>OverflowError\<close> when that double would reach
  $2^{1024}$, \<open>ZeroDivisionError\<close> when \<open>b\<close> is zero; \<open>int\<close> then drops the fraction.

  \<open>round_half_even x y\<close> is the integer nearest to $x / y$; \<open>exponent n b\<close> is the $e$ with
  $2^e \le n / b < 2^{e+1}$, for $0 < b \le n$; and \<open>float_floor n b\<close> is the integer part of
  the double nearest to $n / b$, for $0 \le n$ and $0 < b$: a double has 53 significant
  bits, so the quotient is rounded to a multiple of $2^{e-52}$.
\<close>

definition round_half_even :: "int \<Rightarrow> int \<Rightarrow> int" where
  "round_half_even x y =
     (let q = x div y; r = x mod y in if y < 2 * r \<or> (2 * r = y \<and> odd q) then q + 1 else q)"

function exponent :: "int \<Rightarrow> int \<Rightarrow> nat" where
  "exponent n b = (if b \<le> 0 \<or> n < 2 * b then 0 else Suc (exponent n (2 * b)))"
  by pat_completeness auto
termination
proof (relation "measure (\<lambda>(n, b). nat (n - b))")
  show "wf (measure (\<lambda>(n, b). nat (n - b)))" by simp
next
  fix n b :: int
  assume "\<not> (b \<le> 0 \<or> n < 2 * b)"
  then have "nat (n - 2 * b) < nat (n - b)" by linarith
  then show "((n, 2 * b), (n, b)) \<in> measure (\<lambda>(n, b). nat (n - b))" by simp
qed

declare exponent.simps [simp del]

definition float_floor :: "int \<Rightarrow> int \<Rightarrow> int option" where
  "float_floor n b =
     (if 2 * n < b then Some 0
      else if n < b then Some (round_half_even (n * 2 ^ 53) b div 2 ^ 53)
      else
        let e = exponent n b in
        if e \<le> 52 then Some (round_half_even (n * 2 ^ (52 - e)) b div 2 ^ (52 - e))
        else
          let m = round_half_even n (b * 2 ^ (e - 52)) in
          if 2 ^ 1024 \<le> m * 2 ^ (e - 52) then None else Some (m * 2 ^ (e - 52)))"

definition int_of_quotient :: "int \<Rightarrow> int \<Rightarrow> int option" where
  "int_of_quotient a b =
     (if b = 0 then None
      else map_option (\<lambda>k. sgn a * sgn b * k) (float_floor \<bar>a\<bar> \<bar>b\<bar>))"

text \<open>\<open>str(n)\<close> for a natural number.\<close>

fun digits :: "nat \<Rightarrow> nat \<Rightarrow> string" where
  "digits 0 n = []"
| "digits (Suc fuel) n =
     (if n < 10 then [char_of (48 + n)] else digits fuel (n div 10) @ [char_of (48 + n mod 10)])"

definition str_nat :: "nat \<Rightarrow> string" where
  "str_nat n = digits (Suc n) n"

section \<open>File types and comment grammars\<close>

text \<open>\<open>SUPPORTED_EXTENSIONS\<close>.\<close>

definition SUPPORTED_EXTENSIONS :: "(string \<times> string) list" where
  "SUPPORTED_EXTENSIONS =
    [(''.py'', ''python''), (''.js'', ''javascript''), (''.ts'', ''typescript''),
     (''.jsx'', ''javascript''), (''.tsx'', ''typescript''), (''.java'', ''java''),
     (''.go'', ''go''), (''.rs'', ''rust''), (''.cpp'', ''cpp''), (''.hpp'', ''cpp''),
     (''.h'', ''cpp''), (''.c'', ''c''), (''.rb'', ''ruby''), (''.php'', ''php''),
     (''.sh'', ''bash''), (''.yaml'', ''yaml''), (''.yml'', ''yaml''), (''.json'', ''json''),
     (''.md'', ''markdown''), (''.txt'', ''text'')]"

text \<open>
  The comment patterns of a language: \<open>single_line\<close> holds the marker \<open>m\<close> of the pattern
  \<open>m.*$\<close>, and \<open>multi_line\<close> the delimiters \<open>(o, c)\<close> of each pattern \<open>o[\s\S]*?c\<close>, in the
  order of the source.
\<close>

record grammar =
  single_line :: "string option"
  multi_line :: "(string \<times> string) list"

definition slash_grammar :: grammar where
  "slash_grammar = \<lparr>single_line = Some ''//'', multi_line = [(''/*'', ''*/'')]\<rparr>"

definition language_patterns :: "(string \<times> grammar) list" where
  "language_patterns =
    [(''python'', \<lparr>single_line = Some ''#'',
        multi_line = [([CHR 0x22, CHR 0x22, CHR 0x22], [CHR 0x22, CHR 0x22, CHR 0x22]),
                      ([CHR 0x27, CHR 0x27, CHR 0x27], [CHR 0x27, CHR 0x27, CHR 0x27])]\<rparr>),
     (''javascript'', slash_grammar), (''typescript'', slash_grammar),
     (''java'', slash_grammar), (''go'', slash_grammar), (''rust'', slash_grammar),
     (''ruby'', \<lparr>single_line = Some ''#'', multi_line = [(''=begin'', ''=end'')]\<rparr>)]"

text \<open>
  \<open>_get_language_specific_patterns\<close>: the grammar of the tag the extension maps to
  (\<open>text\<close> for an unknown extension), or none.
\<close>

definition get_language_specific_patterns :: "string \<Rightarrow> grammar option" where
  "get_language_specific_patterns extension =
     map_of language_patterns
       (case map_of SUPPORTED_EXTENSIONS extension of None \<Rightarrow> ''text'' | Some tag \<Rightarrow> tag)"

section \<open>Paths\<close>

text \<open>
  Paths are relative to the traversal root and normalised, with one \<open>/\<close> between the
  names. \<open>os.path.basename\<close> is what follows the last separator, \<open>os.path.dirname\<close>
  what stands before it.
\<close>

definition basename :: "string \<Rightarrow> string" where
  "basename p = rev (takeWhile (\<lambda>c. c \<noteq> CHR ''/'') (rev p))"

definition dirname :: "string \<Rightarrow> string" where
  "dirname p = rev (drop 1 (dropWhile (\<lambda>c. c \<noteq> CHR ''/'') (rev p)))"

text \<open>
  \<open>os.path.splitext(p)[1]\<close>: the part of the base name from its last dot on, when a
  character other than a dot stands before that dot; empty otherwise.
\<close>

definition splitext_ext :: "string \<Rightarrow> string" where
  "splitext_ext p =
     (let b = basename p;
          ext = rev (takeWhile (\<lambda>c. c \<noteq> CHR ''.'') (rev b));
          stem = rev (drop 1 (dropWhile (\<lambda>c. c \<noteq> CHR ''.'') (rev b)))
      in if CHR ''.'' \<in> set b \<and> (\<exists>c \<in> set stem. c \<noteq> CHR ''.'') then CHR ''.'' # ext else [])"

section \<open>Content normalisation\<close>

text \<open>
  \<open>re.sub(m + '.*$', '', code, flags=re.MULTILINE)\<close> for a marker \<open>m\<close>: from every
  occurrence of the marker, the text up to the next line feed (or the end) is removed;
  the dot matches every character but the line feed, and the line feed stays.
\<close>

fun remove_single :: "string \<Rightarrow> bool \<Rightarrow> string \<Rightarrow> string" where
  "remove_single m skipping [] = []"
| "remove_single m skipping (c # cs) =
     (if skipping \<and> c \<noteq> CHR 0x0A then remove_single m True cs
      else if m \<noteq> [] \<and> prefix m (c # cs) then remove_single m True cs
      else c # remove_single m False cs)"

text \<open>What follows the first occurrence of \<open>c\<close> in a text, if there is one.\<close>

fun after_first :: "string \<Rightarrow> string \<Rightarrow> string option" where
  "after_first c [] = (if c = [] then Some [] else None)"
| "after_first c (x # xs) =
     (if prefix c (x # xs) then Some (drop (length c) (x # xs)) else after_first c xs)"

lemma after_first_length: "after_first c s = Some r \<Longrightarrow> length r \<le> length s"
  by (induction s) (auto split: if_splits)

text \<open>
  \<open>re.sub(o + '[\s\S]*?' + c, '', code)\<close> for literal delimiters: scanning from the left,
  an opening delimiter that has a closing one after it is removed together with
  everything up to and including the nearest closing one, and the scan goes on behind it.
\<close>

function remove_block :: "string \<Rightarrow> string \<Rightarrow> string \<Rightarrow> string" where
  "remove_block o' c [] = []"
| "remove_block o' c (x # xs) =
     (if o' \<noteq> [] \<and> prefix o' (x # xs) then
        (case after_first c (drop (length o') (x # xs)) of
           Some rest \<Rightarrow> remove_block o' c rest
         | None \<Rightarrow> x # remove_block o' c xs)
      else x # remove_block o' c xs)"
  by pat_completeness auto
termination
proof (relation "measure (\<lambda>(o', c, s). length s)")
  show "wf (measure (\<lambda>(o', c, s). length s))" by simp
next
  fix o' c :: string and x xs rest
  assume "o' \<noteq> [] \<and> prefix o' (x # xs)"
    and "after_first c (drop (length o') (x # xs)) = Some rest"
  then have "length rest \<le> length (drop (length o') (x # xs))" and "0 < length o'"
    by (auto dest: after_first_length)
  then show "((o', c, rest), (o', c, x # xs)) \<in> measure (\<lambda>(o', c, s). length s)"
    by (cases o') auto
qed simp_all

text \<open>The grammar step of \<open>_clean_code\<close>: the single-line pattern, then each block pattern.\<close>

definition strip_comments :: "grammar \<Rightarrow> string \<Rightarrow> string" where
  "strip_comments g code =
     fold (\<lambda>(o', c) code. remove_block o' c code) (multi_line g)
       (case single_line g of None \<Rightarrow> code | Some m \<Rightarrow> remove_single m False code)"

text \<open>The last step of \<open>_clean_code\<close>: blank lines go, the others lose their trailing space.\<close>

definition clean_lines :: "string \<Rightarrow> string" where
  "clean_lines code =
     join [CHR 0x0A] (map rstrip (filter (\<lambda>line. strip line \<noteq> []) (splitlines code)))"

text \<open>\<open>_clean_code\<close>.\<close>

definition clean_code :: "string \<Rightarrow> string \<Rightarrow> string" where
  "clean_code code file_path =
     (let extension = lower (splitext_ext file_path) in
      case get_language_specific_patterns extension of
        None \<Rightarrow> clean_lines code
      | Some g \<Rightarrow> clean_lines (strip_comments g code))"

section \<open>Token budget\<close>

text \<open>
  The number of matches of \<open>\b\w+\b\<close>: the maximal runs of word characters, counted
  where they start (\<open>prev\<close> says whether the character before is a word character).
\<close>

fun word_runs :: "bool \<Rightarrow> string \<Rightarrow> nat" where
  "word_runs prev [] = 0"
| "word_runs prev (c # cs) = (if is_word c \<and> \<not> prev then 1 else 0) + word_runs (is_word c) cs"

text \<open>\<open>_estimate_tokens\<close>.\<close>

definition estimate_tokens :: "string \<Rightarrow> nat" where
  "estimate_tokens text =
     (let words = word_runs False text;
          symbols = length (filter (\<lambda>c. \<not> is_word c \<and> \<not> is_space c) text)
      in words + symbols)"

definition MARKER :: string where
  "MARKER = ''\<newline># ... (truncated due to token limit) ...''"

text \<open>
  Lines 252 and 253 of \<open>_process_file\<close>: the proportional cut and the marker. The result
  is \<open>None\<close> when the division raises, which it does when \<open>tokens\<close> is zero and when the
  quotient is beyond the range of a double.
\<close>

definition truncate_content :: "string \<Rightarrow> nat \<Rightarrow> int \<Rightarrow> string option" where
  "truncate_content cleaned_content tokens max_token_length =
     map_option (\<lambda>k. slice_to cleaned_content k @ MARKER)
       (int_of_quotient (int (length cleaned_content) * max_token_length) (int tokens))"

section \<open>Processing one file\<close>

record FileStats =
  size' :: nat
  tokens :: nat
  lines :: nat

record config =
  max_file_size :: int
  max_token_length :: int

record state =
  file_stats :: "(string \<times> FileStats) list"
  flattened_content :: "string list"

text \<open>The section of one file in the output.\<close>

definition file_section :: "string \<Rightarrow> string \<Rightarrow> string" where
  "file_section relative_path cleaned_content =
     ''### File: '' @ relative_path @ ''\<newline>'' @
     ''```python\<newline>'' @
     cleaned_content @ ''\<newline>'' @
     ''```\<newline>''"

text \<open>
  \<open>_process_file\<close>, for a file given by its path relative to the root, its size in bytes
  and its decoded content (\<open>None\<close> when reading or decoding raises). Every exception is
  caught by the function and leaves the state as it was; so does a division that raises
  in the cut.
\<close>

definition process_file :: "config \<Rightarrow> string \<Rightarrow> nat \<Rightarrow> string option \<Rightarrow> state \<Rightarrow> state" where
  "process_file cfg relative_path file_size content st =
     (let extension = lower (splitext_ext relative_path) in
      if map_of SUPPORTED_EXTENSIONS extension = None then st
      else if int file_size > max_file_size cfg then st
      else case content of
        None \<Rightarrow> st
      | Some text \<Rightarrow>
          let cleaned_content = clean_code text relative_path in
          if cleaned_content = [] then st
          else
            let tokens = estimate_tokens cleaned_content in
            case (if int tokens > max_token_length cfg
                  then truncate_content cleaned_content tokens (max_token_length cfg)
                  else Some cleaned_content) of
              None \<Rightarrow> st
            | Some cleaned_content \<Rightarrow>
                st\<lparr>file_stats :=
                      AList.update relative_path
                        \<lparr>size' = file_size, tokens = tokens,
                         lines = length (splitlines cleaned_content)\<rparr> (file_stats st),
                    flattened_content :=
                      flattened_content st @ [file_section relative_path cleaned_content]\<rparr>)"

section \<open>Regular expressions\<close>

text \<open>
  The ignore rules are pattern strings handed to \<open>re.search\<close>. The fragment of Python's
  pattern syntax modelled here is the one the default rules and the compiled globs are
  written in: literals, escaped characters, the dot, character sets of plain characters,
  the anchors, groups, alternation, and the greedy repeats \<open>*\<close> and \<open>?\<close>.
\<close>

datatype regex =
    Eps
  | Lit char
  | Any
  | In "char list"
  | NotIn "char list"
  | Bol
  | Eol
  | Seq regex regex
  | Alt regex regex
  | Star regex
  | Opt regex

text \<open>
  \<open>ends r s i\<close>: the positions where a match of \<open>r\<close> that starts at position \<open>i\<close> of \<open>s\<close>
  can end. The dot matches every character but the line feed; \<open>^\<close> matches at the start
  of the string; \<open>$\<close> matches at the end and before a line feed that ends the string.
  A repeat only needs the iterations that consume something.
\<close>

function ends :: "regex \<Rightarrow> string \<Rightarrow> nat \<Rightarrow> nat list" where
  "ends Eps s i = [i]"
| "ends (Lit c) s i = (if i < length s \<and> s ! i = c then [Suc i] else [])"
| "ends Any s i = (if i < length s \<and> s ! i \<noteq> CHR 0x0A then [Suc i] else [])"
| "ends (In cs) s i = (if i < length s \<and> s ! i \<in> set cs then [Suc i] else [])"
| "ends (NotIn cs) s i = (if i < length s \<and> s ! i \<notin> set cs then [Suc i] else [])"
| "ends Bol s i = (if i = 0 then [i] else [])"
| "ends Eol s i =
     (if i = length s \<or> (Suc i = length s \<and> s ! i = CHR 0x0A) then [i] else [])"
| "ends (Seq r1 r2) s i = concat (map (ends r2 s) (ends r1 s i))"
| "ends (Alt r1 r2) s i = ends r1 s i @ ends r2 s i"
| "ends (Opt r) s i = i # ends r s i"
| "ends (Star r) s i =
     i # concat (map (ends (Star r) s) (filter (\<lambda>j. i < j \<and> j \<le> length s) (ends r s i)))"
  by pat_completeness auto
termination
  by (relation "measures [\<lambda>(r, s, i). size r, \<lambda>(r, s, i). length s - i]") auto

text \<open>\<open>re.search\<close> on a compiled pattern: a match may start anywhere.\<close>

definition matches :: "regex \<Rightarrow> string \<Rightarrow> bool" where
  "matches r s = (\<exists>i \<in> set [0 ..< Suc (length s)]. ends r s i \<noteq> [])"

text \<open>
  The parser keeps, for the group it is in, the finished branches and the items of the
  current branch, both reversed, and a stack of the same for the enclosing groups.
\<close>

type_synonym frame = "regex list \<times> regex list"

definition mk_seq :: "regex list \<Rightarrow> regex" where
  "mk_seq rs = foldr Seq rs Eps"

fun mk_alt :: "regex list \<Rightarrow> regex" where
  "mk_alt [] = Eps"
| "mk_alt [r] = r"
| "mk_alt (r # rs) = Alt r (mk_alt rs)"

definition close_frame :: "frame \<Rightarrow> regex" where
  "close_frame f = mk_alt (rev (mk_seq (rev (snd f)) # fst f))"

text \<open>
  An anchor cannot be repeated (\<open>nothing to repeat\<close>), and neither can a repeat
  (\<open>multiple repeat\<close>; the lazy \<open>*?\<close> is outside the fragment).
\<close>

fun repeatable :: "regex \<Rightarrow> bool" where
  "repeatable Bol = False"
| "repeatable Eol = False"
| "repeatable (Star r) = False"
| "repeatable (Opt r) = False"
| "repeatable r = True"

definition is_ascii_alnum :: "char \<Rightarrow> bool" where
  "is_ascii_alnum c = (let n = (of_char c :: nat) in
     (48 \<le> n \<and> n \<le> 57) \<or> (65 \<le> n \<and> n \<le> 90) \<or> (97 \<le> n \<and> n \<le> 122))"

text \<open>
  What follows \<open>[\<close>: an optional \<open>^\<close>, at least one plain character, and \<open>]\<close>. Ranges,
  escapes and brackets inside a set are outside the fragment.
\<close>

definition set_item :: "char \<Rightarrow> bool" where
  "set_item c = (c \<notin> set [CHR '']'', CHR ''['', CHR 0x5C, CHR ''-''])"

definition set_body :: "string \<Rightarrow> (char list \<times> string) option" where
  "set_body s =
     (let items = takeWhile set_item s; rest = dropWhile set_item s
      in if items \<noteq> [] \<and> rest \<noteq> [] \<and> hd rest = CHR '']'' then Some (items, tl rest) else None)"

fun parse_set :: "string \<Rightarrow> (regex \<times> string) option" where
  "parse_set [] = None"
| "parse_set (c # cs) =
     (if c = CHR ''^'' then map_option (\<lambda>(items, rest). (NotIn items, rest)) (set_body cs)
      else map_option (\<lambda>(items, rest). (In items, rest)) (set_body (c # cs)))"

lemma set_body_length: "set_body s = Some (items, rest) \<Longrightarrow> length rest < length s"
proof -
  assume a: "set_body s = Some (items, rest)"
  then have "rest = tl (dropWhile set_item s)" and "dropWhile set_item s \<noteq> []"
    by (auto simp: set_body_def Let_def split: if_splits)
  moreover have "length (dropWhile set_item s) \<le> length s" by (rule length_dropWhile_le)
  ultimately show ?thesis by (cases "dropWhile set_item s") auto
qed

lemma parse_set_length: "parse_set s = Some (r, rest) \<Longrightarrow> length rest < length s"
  by (cases s) (auto split: if_splits dest!: set_body_length)

text \<open>
  The parser. \<open>None\<close> stands for \<open>re.error\<close>, and for every pattern outside the fragment
  (a backslash before a letter or a digit, \<open>+\<close>, \<open>{\<close>, \<open>(?\<close> other than \<open>(?:\<close>).
\<close>

function parse :: "frame list \<Rightarrow> frame \<Rightarrow> string \<Rightarrow> regex option" where
  "parse stack f [] = (if stack = [] then Some (close_frame f) else None)"
| "parse stack f (c # cs) =
     (if c = CHR 0x5C then
        (case cs of
           [] \<Rightarrow> None
         | d # ds \<Rightarrow> if is_ascii_alnum d then None else parse stack (fst f, Lit d # snd f) ds)
      else if c = CHR ''('' then
        (case cs of
           [] \<Rightarrow> None
         | d # ds \<Rightarrow>
             if d = CHR ''?'' then
               (case ds of
                  [] \<Rightarrow> None
                | e # es \<Rightarrow> if e = CHR '':'' then parse (f # stack) ([], []) es else None)
             else parse (f # stack) ([], []) (d # ds))
      else if c = CHR '')'' then
        (case stack of
           [] \<Rightarrow> None
         | g # stack' \<Rightarrow> parse stack' (fst g, close_frame f # snd g) cs)
      else if c = CHR ''|'' then parse stack (mk_seq (rev (snd f)) # fst f, []) cs
      else if c = CHR ''*'' then
        (case snd f of
           [] \<Rightarrow> None
         | r # rs \<Rightarrow> if repeatable r then parse stack (fst f, Star r # rs) cs else None)
      else if c = CHR ''?'' then
        (case snd f of
           [] \<Rightarrow> None
         | r # rs \<Rightarrow> if repeatable r then parse stack (fst f, Opt r # rs) cs else None)
      else if c = CHR ''+'' \<or> c = CHR ''{'' then None
      else if c = CHR ''['' then
        (case parse_set cs of
           None \<Rightarrow> None
         | Some (r, rest) \<Rightarrow> parse stack (fst f, r # snd f) rest)
      else if c = CHR ''.'' then parse stack (fst f, Any # snd f) cs
      else if c = CHR ''^'' then parse stack (fst f, Bol # snd f) cs
      else if c = CHR ''$'' then parse stack (fst f, Eol # snd f) cs
      else parse stack (fst f, Lit c # snd f) cs)"
  by pat_completeness auto
termination
  by (relation "measure (\<lambda>(stack, f, s). length s)") (auto dest: parse_set_length)

declare parse.simps [simp del]

text \<open>\<open>re.compile\<close>, and \<open>re.search(pattern, s)\<close> as a truth value; \<open>None\<close> when it raises.\<close>

definition re_compile :: "string \<Rightarrow> regex option" where
  "re_compile pattern = parse [] ([], []) pattern"

definition re_search :: "string \<Rightarrow> string \<Rightarrow> bool option" where
  "re_search pattern s = map_option (\<lambda>r. matches r s) (re_compile pattern)"

section \<open>Ignore rules\<close>

text \<open>\<open>re.escape\<close> (Python 3.7 and later): a backslash before each special character.\<close>

definition special_chars :: "char list" where
  "special_chars = ''()[]{}?*+-|^$'' @ [CHR 0x5C] @ ''.&~# '' @
     [CHR 0x09, CHR 0x0A, CHR 0x0D, CHR 0x0B, CHR 0x0C]"

definition re_escape :: "string \<Rightarrow> string" where
  "re_escape pattern =
     concat (map (\<lambda>c. if c \<in> set special_chars then [CHR 0x5C, c] else [c]) pattern)"

text \<open>
  \<open>s.replace(old, new)\<close>: the occurrences of \<open>old\<close> are replaced from the left, without
  overlap. (Only called with a non-empty \<open>old\<close>; an empty one leaves the text alone here.)
\<close>

function replace :: "string \<Rightarrow> string \<Rightarrow> string \<Rightarrow> string" where
  "replace old new [] = []"
| "replace old new (c # cs) =
     (if old \<noteq> [] \<and> prefix old (c # cs)
      then new @ replace old new (drop (length old) (c # cs))
      else c # replace old new cs)"
  by pat_completeness auto
termination
  by (relation "measure (\<lambda>(old, new, s). length s)") (auto simp: neq_Nil_conv)

text \<open>\<open>_glob_to_regex\<close>.\<close>

definition glob_to_regex :: "string \<Rightarrow> string" where
  "glob_to_regex pattern =
     (if pattern = [] then []
      else
        let pattern = replace [CHR 0x5C, CHR ''?''] ''?''
                        (replace [CHR 0x5C, CHR ''*''] ''*'' (re_escape pattern));
            pattern = replace ''**'' ''.*'' pattern;
            pattern = replace ''*'' ''[^/]*'' pattern;
            pattern = replace ''?'' ''[^/]'' pattern;
            pattern = (if pattern \<noteq> [] \<and> last pattern = CHR ''/''
                       then butlast pattern @ ''(?:/.*)?'' else pattern);
            pattern = (if pattern \<noteq> [] \<and> hd pattern = CHR ''/''
                       then ''^'' @ tl pattern else ''(?:^|/)'' @ pattern)
        in pattern @ ''$'')"

text \<open>The built-in rules of \<open>_load_gitignore\<close>; they are regular expressions as written.\<close>

definition default_patterns :: "string list" where
  "default_patterns =
    [[CHR 0x5C] @ ''.git(?:/.*)?'',
     [CHR 0x5C] @ ''.idea(?:/.*)?'',
     ''__pycache__(?:/.*)?'',
     ''.*'' @ [CHR 0x5C] @ ''.pyc'',
     ''.*'' @ [CHR 0x5C] @ ''.log'',
     [CHR 0x5C] @ ''.env'',
     ''.*venv(?:/.*)?'',
     ''node_modules(?:/.*)?'',
     ''dist(?:/.*)?'',
     ''build(?:/.*)?'']"

text \<open>
  The loop of \<open>_load_gitignore\<close> over the lines of the exclusion file: blank lines,
  comments and negations are skipped, every other line is compiled.
\<close>

definition gitignore_patterns :: "string list \<Rightarrow> string list" where
  "gitignore_patterns file_lines =
     map glob_to_regex
       (filter (\<lambda>line. line \<noteq> [] \<and> \<not> prefix ''#'' line \<and> \<not> prefix ''!'' line)
          (map strip file_lines))"

text \<open>
  \<open>_load_gitignore\<close>, given the lines of the exclusion file (\<open>None\<close> when there is no
  such file) and the patterns of the caller; the result is \<open>all_ignore_patterns\<close>.
  Without an exclusion file the function returns before it sets the rules, which stay
  the empty list of the constructor.
\<close>

definition load_gitignore :: "string list option \<Rightarrow> string list \<Rightarrow> string list" where
  "load_gitignore gitignore ignore_patterns =
     (case gitignore of
        None \<Rightarrow> []
      | Some file_lines \<Rightarrow>
          let converted_ignores = map glob_to_regex ignore_patterns
          in default_patterns @ gitignore_patterns file_lines @ converted_ignores)"

text \<open>
  \<open>_should_ignore\<close>, for a path relative to the root: each rule is searched in the path
  and in its base name. \<open>None\<close> when a search raises.
\<close>

fun should_ignore :: "string list \<Rightarrow> string \<Rightarrow> bool option" where
  "should_ignore [] relative_path = Some False"
| "should_ignore (pattern # patterns) relative_path =
     (case re_search pattern relative_path of
        None \<Rightarrow> None
      | Some True \<Rightarrow> Some True
      | Some False \<Rightarrow>
          (case re_search pattern (basename relative_path) of
             None \<Rightarrow> None
           | Some True \<Rightarrow> Some True
           | Some False \<Rightarrow> should_ignore patterns relative_path))"

section \<open>Traversal\<close>

text \<open>
  A directory as \<open>os.walk\<close> lists it: its files (name, size in bytes, and decoded content,
  \<open>None\<close> when the file cannot be read or decoded) and its subdirectories by name, in the
  order of the listing.
\<close>

datatype dir = Directory (files: "(string \<times> nat \<times> string option) list") (subdirs: "(string \<times> dir) list")

text \<open>
  \<open>os.path.relpath(os.path.join(dirpath, name), root_dir)\<close>, for \<open>dirpath\<close> given relative to
  the root, the root itself as the empty path.
\<close>

definition join_path :: "string \<Rightarrow> string \<Rightarrow> string" where
  "join_path dirpath name = (if dirpath = [] then name else dirpath @ ''/'' @ name)"

text \<open>
  A directory tree as a file system lists it: in every directory the names of the files
  are distinct, the names of the subdirectories are distinct, and no name is empty or
  contains the separator.
\<close>

fun wf_dir :: "dir \<Rightarrow> bool" where
  "wf_dir (Directory filenames dirnames) =
     (distinct (map fst filenames) \<and> distinct (map fst dirnames) \<and>
      list_all (\<lambda>name. name \<noteq> [] \<and> CHR ''/'' \<notin> set name)
        (map fst filenames @ map fst dirnames) \<and>
      list_all (\<lambda>d. wf_dir (snd d)) dirnames)"

text \<open>A loop whose body may raise; \<open>None\<close> is the exception.\<close>

fun fold_opt :: "('a \<Rightarrow> 's \<Rightarrow> 's option) \<Rightarrow> 'a list \<Rightarrow> 's \<Rightarrow> 's option" where
  "fold_opt f [] s = Some s"
| "fold_opt f (x # xs) s = (case f x s of None \<Rightarrow> None | Some s' \<Rightarrow> fold_opt f xs s')"

lemma fold_opt_cong [fundef_cong]:
  "xs = ys \<Longrightarrow> s = t \<Longrightarrow> (\<And>x s. x \<in> set ys \<Longrightarrow> f x s = g x s) \<Longrightarrow>
   fold_opt f xs s = fold_opt g ys t"
  by (induction ys arbitrary: xs s t) (auto split: option.splits)

text \<open>
  Line 325 of \<open>flatten\<close>: the subdirectories that \<open>_should_ignore\<close> does not match are
  kept, the others are pruned.
\<close>

fun filter_dirs :: "string list \<Rightarrow> string \<Rightarrow> (string \<times> dir) list \<Rightarrow> (string \<times> dir) list option" where
  "filter_dirs rules dirpath [] = Some []"
| "filter_dirs rules dirpath (d # ds) =
     (case should_ignore rules (join_path dirpath (fst d)) of
        None \<Rightarrow> None
      | Some ignored \<Rightarrow>
          (case filter_dirs rules dirpath ds of
             None \<Rightarrow> None
           | Some kept \<Rightarrow> Some (if ignored then kept else d # kept)))"

lemma filter_dirs_subset: "filter_dirs rules dirpath ds = Some kept \<Longrightarrow> set kept \<subseteq> set ds"
  by (induction ds arbitrary: kept) (auto split: option.splits if_splits)

text \<open>Lines 328 to 331 of \<open>flatten\<close>, on the files already sorted.\<close>

fun process_files ::
  "config \<Rightarrow> string list \<Rightarrow> string \<Rightarrow> (string \<times> nat \<times> string option) list \<Rightarrow> state \<Rightarrow> state option" where
  "process_files cfg rules dirpath [] st = Some st"
| "process_files cfg rules dirpath (f # fs) st =
     (let file_path = join_path dirpath (fst f) in
      case should_ignore rules file_path of
        None \<Rightarrow> None
      | Some ignored \<Rightarrow>
          process_files cfg rules dirpath fs
            (if ignored then st else process_file cfg file_path (fst (snd f)) (snd (snd f)) st))"

lemma size_subdir: "(d, sub) \<in> set ds \<Longrightarrow> size sub < size (Directory fs ds)"
  by (induction ds) auto

text \<open>
  The loop of \<open>flatten\<close> over \<open>os.walk\<close>, top down: the subdirectories are pruned and
  sorted, the files are processed in sorted order, and the walk goes on into the
  subdirectories that are left, in their order.
\<close>

function walk :: "config \<Rightarrow> string list \<Rightarrow> string \<Rightarrow> dir \<Rightarrow> state \<Rightarrow> state option" where
  "walk cfg rules dirpath (Directory filenames dirnames) st =
     (case filter_dirs rules dirpath dirnames of
        None \<Rightarrow> None
      | Some dirnames \<Rightarrow>
          (case process_files cfg rules dirpath (sort_key fst filenames) st of
             None \<Rightarrow> None
           | Some st \<Rightarrow>
               fold_opt (\<lambda>d st. walk cfg rules (join_path dirpath (fst d)) (snd d) st)
                 (sort_key fst dirnames) st))"
  by pat_completeness auto
termination
proof (relation "measure (\<lambda>(cfg, rules, dirpath, t, st). size t)")
  show "wf (measure (\<lambda>(cfg, rules, dirpath, t, st). size t))" by simp
next
  fix cfg rules dirpath filenames dirnames st kept st' and d :: "string \<times> dir" and st''
  assume "filter_dirs rules dirpath dirnames = Some kept" and "d \<in> set (sort_key fst kept)"
  then have "(fst d, snd d) \<in> set dirnames" using filter_dirs_subset by fastforce
  from size_subdir [OF this]
  show "((cfg, rules, join_path dirpath (fst d), snd d, st''),
         (cfg, rules, dirpath, Directory filenames dirnames, st))
        \<in> measure (\<lambda>(cfg, rules, dirpath, t, st). size t)"
    by simp
qed

declare walk.simps [simp del]

text \<open>
  The traversal of \<open>flatten\<close>: the rules are loaded, the state is emptied, the root is
  walked. \<open>None\<close> when an exception leaves the loop.
\<close>

definition flatten :: "config \<Rightarrow> string list option \<Rightarrow> string list \<Rightarrow> dir \<Rightarrow> state option" where
  "flatten cfg gitignore ignore_patterns root =
     walk cfg (load_gitignore gitignore ignore_patterns) [] root
       \<lparr>file_stats = [], flattened_content = []\<rparr>"

text \<open>A small tree and the default limits, for the instances of the theorems.\<close>

definition example_config :: config where
  "example_config = \<lparr>max_file_size = 1048576, max_token_length = 100000\<rparr>"

definition example_tree :: dir where
  "example_tree =
     Directory [(''main.py'', 10, Some ''x = 1'')]
       [(''build'', Directory [(''gen.py'', 9, Some ''z = 3'')] []),
        (''src'', Directory [(''app.js'', 7, Some ''f();'')] [])]"

section \<open>The report\<close>

text \<open>
  The two icons of the structure lines are made of characters beyond code point 255,
  which a \<open>string\<close> does not hold. So a text of the report is the list of its code points,
  and \<open>cp\<close> takes a string of the model to its code points. The icons are the characters
  that the source file holds when it is read as UTF-8, which is how Python reads it.
\<close>

definition cp :: "string \<Rightarrow> int list" where
  "cp s = map of_char s"

definition DIR_ICON :: "int list" where
  "DIR_ICON = [0xF0, 0x178, 0x201C]"

definition FILE_ICON :: "int list" where
  "FILE_ICON = [0xF0, 0x178, 0x201C, 0x201E]"

text \<open>\<open>len(p.split('/'))\<close>.\<close>

definition parts_count :: "string \<Rightarrow> nat" where
  "parts_count p = Suc (length (filter (\<lambda>c. c = CHR ''/'') p))"

definition dir_line :: "string \<Rightarrow> int list" where
  "dir_line current_dir =
     cp (concat (replicate (parts_count current_dir - 1) ''  '')) @ DIR_ICON @
     cp ('' '' @ basename current_dir @ ''/'')"

definition file_line :: "string \<Rightarrow> FileStats \<Rightarrow> int list" where
  "file_line file_path stats =
     cp (concat (replicate (parts_count file_path - 1) ''  '')) @ FILE_ICON @
     cp ('' '' @ basename file_path @ '' ('' @ str_nat (lines stats) @ '' lines, ~'' @
         str_nat (tokens stats) @ '' tokens)'')"

text \<open>
  The loop of \<open>_generate_project_structure\<close> over the sorted keys, each with its entry
  of \<open>file_stats\<close>; the state is the list of lines and \<open>last_dir\<close>.
\<close>

fun structure_lines ::
  "(string \<times> FileStats) list \<Rightarrow> int list list \<Rightarrow> string option \<Rightarrow> int list list" where
  "structure_lines [] structure last_dir = structure"
| "structure_lines ((file_path, stats) # rest) structure last_dir =
     (let current_dir = dirname file_path;
          structure =
            (if Some current_dir \<noteq> last_dir \<and> current_dir \<noteq> []
             then structure @ [dir_line current_dir] else structure)
      in structure_lines rest (structure @ [file_line file_path stats]) (Some current_dir))"

definition generate_project_structure :: "state \<Rightarrow> int list" where
  "generate_project_structure st =
     join (cp ''\<newline>'') (structure_lines (sort_key fst (file_stats st)) [] None)"

text \<open>
  \<open>f"{total_size / 1024:.1f}"\<close>: the quotient by 1024 is exact in floating point, and the
  formatting rounds it to one decimal, a tie to the even digit.
\<close>

definition kilobytes :: "nat \<Rightarrow> string" where
  "kilobytes total_size =
     (let q = (total_size * 10) div 1024; r = (total_size * 10) mod 1024;
          tenths = (if r > 512 \<or> (r = 512 \<and> odd q) then q + 1 else q)
      in str_nat (tenths div 10) @ ''.'' @ str_nat (tenths mod 10))"

definition summary_text :: "nat \<Rightarrow> nat \<Rightarrow> nat \<Rightarrow> nat \<Rightarrow> string" where
  "summary_text total_files total_lines total_tokens total_size =
     ''## Project Summary\<newline>\<newline>'' @
     ''- Total files processed: '' @ str_nat total_files @ ''\<newline>'' @
     ''- Total lines of code: '' @ str_nat total_lines @ ''\<newline>'' @
     ''- Estimated total tokens: '' @ str_nat total_tokens @ ''\<newline>'' @
     ''- Total size: '' @ kilobytes total_size @ '' KB\<newline>''"

text \<open>\<open>_generate_summary\<close>.\<close>

definition generate_summary :: "state \<Rightarrow> string" where
  "generate_summary st =
     (let total_files = length (file_stats st);
          total_lines = sum_list (map (\<lambda>(path, stats). lines stats) (file_stats st));
          total_tokens = sum_list (map (\<lambda>(path, stats). tokens stats) (file_stats st));
          total_size = sum_list (map (\<lambda>(path, stats). size' stats) (file_stats st))
      in summary_text total_files total_lines total_tokens total_size)"

text \<open>The text that \<open>save_output\<close> writes, one \<open>f.write\<close> after the other.\<close>

definition save_output :: "state \<Rightarrow> int list" where
  "save_output st =
     cp ''# Codebase Flattened for Agentic Workflow\<newline>\<newline>'' @
     cp ''This file contains the project's source code, optimized for token efficiency:\<newline>'' @
     cp ''- Comments and docstrings have been removed\<newline>'' @
     cp ''- Empty lines have been cleaned up\<newline>'' @
     cp ''- Large files have been truncated\<newline>'' @
     cp ''- Only relevant file types are included\<newline>\<newline>'' @
     cp (generate_summary st) @
     cp ''\<newline>## Project Structure\<newline>\<newline>'' @
     generate_project_structure st @
     cp ''\<newline>\<newline>## Source Code\<newline>\<newline>'' @
     cp ''Each file is demarcated by a header showing its relative path.\<newline>\<newline>'' @
     cp ''--------------------\<newline>\<newline>'' @
     cp (join ''\<newline>'' (flattened_content st))"

section \<open>Properties of the token budget and of the per-file record\<close>

lemma word_runs_pos: "\<exists>c \<in> set s. is_word c \<Longrightarrow> \<not> prev \<Longrightarrow> 0 < word_runs prev s"
  by (induction s arbitrary: prev) auto

lemma estimate_tokens_pos:
  assumes "c \<in> set s" and "\<not> is_space c"
  shows "0 < estimate_tokens s"
proof (cases "is_word c")
  case True
  with assms(1) have "0 < word_runs False s" by (intro word_runs_pos) auto
  then show ?thesis by (simp add: estimate_tokens_def)
next
  case False
  with assms have "c \<in> set (filter (\<lambda>c. \<not> is_word c \<and> \<not> is_space c) s)" by simp
  then have "0 < length (filter (\<lambda>c. \<not> is_word c \<and> \<not> is_space c) s)"
    by (metis length_pos_if_in_set)
  then show ?thesis by (simp add: estimate_tokens_def)
qed

lemma set_join: "x \<in> set xs \<Longrightarrow> set x \<subseteq> set (join sep xs)"
  by (induction sep xs rule: join.induct) auto

lemma join_Nil_iff: "join sep xs = [] \<Longrightarrow> xs = [] \<or> (\<exists>x. x \<in> set xs)"
  by (cases xs) auto

lemma strip_nonspace: "strip l \<noteq> [] \<Longrightarrow> \<exists>c \<in> set (rstrip l). \<not> is_space c"
  unfolding strip_def
  by (metis dropWhile_eq_Nil_conv)

lemma clean_lines_nonspace:
  assumes "clean_lines s \<noteq> []"
  shows "\<exists>c \<in> set (clean_lines s). \<not> is_space c"
proof -
  let ?ls = "filter (\<lambda>line. strip line \<noteq> []) (splitlines s)"
  from assms have "?ls \<noteq> []" by (auto simp: clean_lines_def)
  then obtain l where l: "l \<in> set ?ls" by (cases ?ls) auto
  then have "strip l \<noteq> []" by simp
  then obtain c where c: "c \<in> set (rstrip l)" "\<not> is_space c"
    using strip_nonspace by blast
  from l have "rstrip l \<in> set (map rstrip ?ls)" by simp
  from set_join [OF this] c(1) have "c \<in> set (clean_lines s)"
    by (auto simp: clean_lines_def)
  with c(2) show ?thesis by blast
qed

lemma clean_code_tokens_pos:
  assumes "clean_code text p \<noteq> []"
  shows "0 < estimate_tokens (clean_code text p)"
proof -
  obtain s where s: "clean_code text p = clean_lines s"
    by (cases "get_language_specific_patterns (lower (splitext_ext p))")
       (auto simp: clean_code_def Let_def)
  with assms clean_lines_nonspace obtain c where "c \<in> set (clean_lines s)" "\<not> is_space c"
    by metis
  with s show ?thesis by (simp add: estimate_tokens_pos)
qed

subsection \<open>The quotient of the cut\<close>

lemma exponent_bounds:
  "0 < b \<Longrightarrow> b \<le> n \<Longrightarrow> 2 ^ exponent n b * b \<le> n \<and> n < 2 ^ Suc (exponent n b) * b"
proof (induction n b rule: exponent.induct)
  case (1 n b)
  show ?case
  proof (cases "n < 2 * b")
    case True
    with "1.prems" show ?thesis by (simp add: exponent.simps [of n b])
  next
    case False
    with "1.prems" have
      "2 ^ exponent n (2 * b) * (2 * b) \<le> n \<and> n < 2 ^ Suc (exponent n (2 * b)) * (2 * b)"
      by (intro "1.IH") auto
    with False "1.prems" show ?thesis by (simp add: exponent.simps [of n b] mult_ac)
  qed
qed

text \<open>
  Rounding to a multiple of $2^{-s}$ does not reach the next integer when the divisor is
  below $2^{s+1}$: the quotient is at least $1/b$ below that integer, more than half a unit.
\<close>

lemma round_half_even_exact:
  assumes b: "0 < b" and s: "b < 2 ^ Suc s" and n0: "0 \<le> n"
  shows "round_half_even (n * 2 ^ s) b div 2 ^ s = n div b"
proof -
  define d where "d = n div b"
  define r where "r = n mod b"
  define X where "X = n * 2 ^ s"
  define q where "q = X div b"
  define t where "t = X mod b"
  have n: "n = d * b + r" and rb: "r < b" and r0: "0 \<le> r"
    using b by (simp_all add: d_def r_def)
  have X: "X = q * b + t" and tb: "t < b" and t0: "0 \<le> t"
    using b by (simp_all add: q_def t_def)
  have p: "0 < (2::int) ^ s" by simp
  have Xn: "X = d * 2 ^ s * b + r * 2 ^ s" by (simp add: X_def n algebra_simps)
  have lo: "d * 2 ^ s \<le> q"
  proof (rule ccontr)
    assume "\<not> d * 2 ^ s \<le> q"
    then have "q + 1 \<le> d * 2 ^ s" by simp
    then have "(q + 1) * b \<le> d * 2 ^ s * b" using b by (simp only: mult_le_cancel_right) simp
    moreover have "0 \<le> r * 2 ^ s" using r0 by simp
    ultimately show False using X Xn tb by (simp add: algebra_simps)
  qed
  have Xle: "X + 2 ^ s \<le> (d + 1) * 2 ^ s * b"
  proof -
    have "r + 1 \<le> b" using rb by simp
    then have "(r + 1) * 2 ^ s \<le> b * 2 ^ s" using p by (simp only: mult_le_cancel_right) simp
    then show ?thesis by (simp add: Xn algebra_simps)
  qed
  have hi: "round_half_even X b < (d + 1) * 2 ^ s"
  proof (cases "q + 1 < (d + 1) * 2 ^ s")
    case True
    then show ?thesis by (simp add: round_half_even_def Let_def q_def [symmetric])
  next
    case False
    have "q * b < (d + 1) * 2 ^ s * b" using Xle X t0 p by linarith
    then have "q < (d + 1) * 2 ^ s" using b by (simp only: mult_less_cancel_right)
    with False have qq: "q + 1 = (d + 1) * 2 ^ s" by simp
    then have "(q + 1) * b = (d + 1) * 2 ^ s * b" by simp
    with Xle X have "t + 2 ^ s \<le> b" by (simp add: algebra_simps)
    then have "2 * t + 2 ^ Suc s \<le> 2 * b" by simp
    with s have "2 * t < b" by linarith
    then show ?thesis using qq
      by (simp add: round_half_even_def Let_def q_def [symmetric] t_def [symmetric])
  qed
  have ge: "q \<le> round_half_even X b"
    by (simp add: round_half_even_def Let_def q_def)
  have "round_half_even X b div 2 ^ s = d"
  proof (rule int_div_pos_eq [where r = "round_half_even X b - 2 ^ s * d"])
    show "round_half_even X b = 2 ^ s * d + (round_half_even X b - 2 ^ s * d)" by simp
    show "0 \<le> round_half_even X b - 2 ^ s * d" using lo ge by (simp add: mult.commute)
    show "round_half_even X b - 2 ^ s * d < 2 ^ s" using hi by (simp add: algebra_simps)
  qed
  then show ?thesis by (simp add: X_def d_def)
qed

text \<open>Below $2^{53}$ the floating-point quotient has the integer part of the exact one.\<close>

lemma float_floor_exact:
  assumes b: "0 < b" and n0: "0 \<le> n" and n: "n < 2 ^ 53"
  shows "float_floor n b = Some (n div b)"
proof -
  consider "2 * n < b" | "\<not> 2 * n < b" "n < b" | "b \<le> n" by linarith
  then show ?thesis
  proof cases
    case 1
    with n0 have "n div b = 0" by (simp add: div_pos_pos_trivial)
    with 1 show ?thesis by (simp add: float_floor_def)
  next
    case 2
    have "b < 2 ^ Suc 53" using 2 n by simp
    from round_half_even_exact [OF b this n0] 2 show ?thesis
      by (simp add: float_floor_def)
  next
    case 3
    let ?e = "exponent n b"
    from exponent_bounds [OF b 3] have e: "2 ^ ?e * b \<le> n" by simp
    have "(2::int) ^ ?e * 1 \<le> 2 ^ ?e * b" using b by (intro mult_left_mono) simp_all
    then have "(2::int) ^ ?e \<le> 2 ^ ?e * b" by simp
    from this e have "2 ^ ?e \<le> n" by (rule order_trans)
    from this n have "(2::int) ^ ?e < 2 ^ 53" by (rule le_less_trans)
    then have e53: "?e < 53" by (simp only: power_strict_increasing_iff [of 2])
    have "(2::int) ^ ?e * 2 ^ (53 - ?e) = 2 ^ 53" using e53 by (simp add: power_add [symmetric])
    with e n have "2 ^ ?e * b < 2 ^ ?e * 2 ^ (53 - ?e)" by (simp only:)
    then have "b < 2 ^ (53 - ?e)"
      by (simp only: mult_less_cancel_left_pos zero_less_power zero_less_numeral)
    moreover have "53 - ?e = Suc (52 - ?e)" using e53 by arith
    ultimately have "b < 2 ^ Suc (52 - ?e)" by (simp only:)
    moreover have "\<not> 2 * n < b" using 3 b by linarith
    ultimately show ?thesis
      using round_half_even_exact [OF b _ n0, of "52 - ?e"] 3 e53
      by (simp add: float_floor_def Let_def)
  qed
qed

lemma int_of_quotient_exact:
  assumes "0 < b" and "0 \<le> a" and "a < 2 ^ 53"
  shows "int_of_quotient a b = Some (a div b)"
  using assms float_floor_exact [OF assms]
  by (cases "a = 0") (simp_all add: int_of_quotient_def)

text \<open>The case that the default limits stay in: the cut is the exact quotient, rounded down.\<close>

lemma truncate_content_exact:
  assumes "0 \<le> limit" and "0 < n" and "int (length s) * limit < 2 ^ 53"
  shows "truncate_content s n limit =
           Some (take (nat (int (length s) * limit div int n)) s @ MARKER)"
proof -
  from assms(1) have a: "0 \<le> int (length s) * limit" by simp
  from assms(2) have b: "0 < int n" by simp
  from a b have "0 \<le> int (length s) * limit div int n"
    by (simp add: pos_imp_zdiv_nonneg_iff)
  with int_of_quotient_exact [OF b a assms(3)] show ?thesis
    by (simp add: truncate_content_def slice_to_def)
qed

subsection \<open>The record and the section of one file\<close>

lemma process_file_unfold:
  assumes "map_of SUPPORTED_EXTENSIONS (lower (splitext_ext p)) \<noteq> None"
    and "int sz \<le> max_file_size cfg"
    and "clean_code text p \<noteq> []"
  shows "process_file cfg p sz (Some text) st =
     (let cleaned = clean_code text p; n = estimate_tokens cleaned in
      case (if int n > max_token_length cfg
            then truncate_content cleaned n (max_token_length cfg) else Some cleaned) of
        None \<Rightarrow> st
      | Some body \<Rightarrow>
          st\<lparr>file_stats := AList.update p \<lparr>size' = sz, tokens = n, lines = length (splitlines body)\<rparr>
                 (file_stats st),
             flattened_content := flattened_content st @ [file_section p body]\<rparr>)"
  using assms by (auto simp: process_file_def Let_def)

text \<open>
  C8: a file whose normalised content estimates to exactly the limit is emitted unmodified;
  a file whose estimate is at least one above the limit is emitted cut, with the
  truncation marker appended: the section holds the first characters of the content, as
  many as \<open>int(len * limit / tokens)\<close> says, and then the marker. For a limit that is not
  negative, with \<open>len * limit\<close> below $2^{53}$, that number is the exact quotient rounded
  down. (Should the division raise, which takes a negative limit beyond the range of a
  double, the exception is caught and the file is left out.)
\<close>

theorem token_limit_boundary:
  assumes "map_of SUPPORTED_EXTENSIONS (lower (splitext_ext p)) \<noteq> None"
    and "int sz \<le> max_file_size cfg"
    and "clean_code text p \<noteq> []"
  shows "(int (estimate_tokens (clean_code text p)) = max_token_length cfg \<longrightarrow>
           flattened_content (process_file cfg p sz (Some text) st) =
             flattened_content st @ [file_section p (clean_code text p)]) \<and>
         (int (estimate_tokens (clean_code text p)) \<ge> max_token_length cfg + 1 \<longrightarrow>
           (case int_of_quotient (int (length (clean_code text p)) * max_token_length cfg)
                   (int (estimate_tokens (clean_code text p))) of
              Some k \<Rightarrow>
                flattened_content (process_file cfg p sz (Some text) st) =
                  flattened_content st @
                    [file_section p (slice_to (clean_code text p) k @ MARKER)]
            | None \<Rightarrow> process_file cfg p sz (Some text) st = st)) \<and>
         (int (estimate_tokens (clean_code text p)) \<ge> max_token_length cfg + 1 \<and>
          0 \<le> max_token_length cfg \<and>
          int (length (clean_code text p)) * max_token_length cfg < 2 ^ 53 \<longrightarrow>
           flattened_content (process_file cfg p sz (Some text) st) =
             flattened_content st @
               [file_section p
                  (take (nat (int (length (clean_code text p)) * max_token_length cfg div
                              int (estimate_tokens (clean_code text p))))
                     (clean_code text p) @ MARKER)])"
proof (intro conjI impI)
  assume "int (estimate_tokens (clean_code text p)) = max_token_length cfg"
  then show "flattened_content (process_file cfg p sz (Some text) st) =
      flattened_content st @ [file_section p (clean_code text p)]"
    by (simp add: process_file_unfold [OF assms] Let_def)
next
  assume "int (estimate_tokens (clean_code text p)) \<ge> max_token_length cfg + 1"
  then show "case int_of_quotient (int (length (clean_code text p)) * max_token_length cfg)
                   (int (estimate_tokens (clean_code text p))) of
              Some k \<Rightarrow>
                flattened_content (process_file cfg p sz (Some text) st) =
                  flattened_content st @
                    [file_section p (slice_to (clean_code text p) k @ MARKER)]
            | None \<Rightarrow> process_file cfg p sz (Some text) st = st"
    by (simp add: process_file_unfold [OF assms] Let_def truncate_content_def
        split: option.split)
next
  assume a: "int (estimate_tokens (clean_code text p)) \<ge> max_token_length cfg + 1 \<and>
          0 \<le> max_token_length cfg \<and>
          int (length (clean_code text p)) * max_token_length cfg < 2 ^ 53"
  then have "0 < estimate_tokens (clean_code text p)" by linarith
  with a have "truncate_content (clean_code text p) (estimate_tokens (clean_code text p))
        (max_token_length cfg) =
      Some (take (nat (int (length (clean_code text p)) * max_token_length cfg div
                       int (estimate_tokens (clean_code text p))))
              (clean_code text p) @ MARKER)"
    by (intro truncate_content_exact) simp_all
  with a show "flattened_content (process_file cfg p sz (Some text) st) =
             flattened_content st @
               [file_section p
                  (take (nat (int (length (clean_code text p)) * max_token_length cfg div
                              int (estimate_tokens (clean_code text p))))
                     (clean_code text p) @ MARKER)]"
    by (simp add: process_file_unfold [OF assms] Let_def)
qed

theorem token_limit_boundary_witness:
  "flattened_content (process_file \<lparr>max_file_size = 100, max_token_length = 3\<rparr> ''a.py'' 5
      (Some ''x = 1'') \<lparr>file_stats = [], flattened_content = []\<rparr>) =
     [file_section ''a.py'' ''x = 1''] \<and>
   flattened_content (process_file \<lparr>max_file_size = 100, max_token_length = 2\<rparr> ''a.py'' 5
      (Some ''x = 1'') \<lparr>file_stats = [], flattened_content = []\<rparr>) =
     [file_section ''a.py'' (''x ='' @ MARKER)]"
proof -
  have h1: "map_of SUPPORTED_EXTENSIONS (lower (splitext_ext ''a.py'')) \<noteq> None" by code_simp
  have c: "clean_code ''x = 1'' ''a.py'' = ''x = 1''" by code_simp
  have h3: "clean_code ''x = 1'' ''a.py'' \<noteq> []" by (simp add: c)
  have e: "estimate_tokens ''x = 1'' = 3" by code_simp
  have q: "int_of_quotient 10 3 = Some 3" by code_simp
  have s: "slice_to ''x = 1'' 3 = ''x =''" by code_simp
  from token_limit_boundary [OF h1 _ h3, of 5 "\<lparr>max_file_size = 100, max_token_length = 3\<rparr>"
      "\<lparr>file_stats = [], flattened_content = []\<rparr>"]
    token_limit_boundary [OF h1 _ h3, of 5 "\<lparr>max_file_size = 100, max_token_length = 2\<rparr>"
      "\<lparr>file_stats = [], flattened_content = []\<rparr>"]
  show ?thesis by (simp add: c e q s)
qed

text \<open>
  C9: for a truncated file the recorded token count is the estimate of the content
  before the cut, which is above the limit, and the recorded line count is that of the
  body after the cut, marker included. (A file whose cut raises is not truncated: it is
  left out.)
\<close>

theorem truncated_file_stats:
  assumes "map_of SUPPORTED_EXTENSIONS (lower (splitext_ext p)) \<noteq> None"
    and "int sz \<le> max_file_size cfg"
    and "clean_code text p \<noteq> []"
    and "int (estimate_tokens (clean_code text p)) > max_token_length cfg"
  shows "case truncate_content (clean_code text p) (estimate_tokens (clean_code text p))
                (max_token_length cfg) of
           Some body \<Rightarrow>
             (\<exists>s. map_of (file_stats (process_file cfg p sz (Some text) st)) p = Some s \<and>
                last (flattened_content (process_file cfg p sz (Some text) st)) =
                  file_section p body \<and>
                tokens s = estimate_tokens (clean_code text p) \<and>
                int (tokens s) > max_token_length cfg \<and>
                lines s = length (splitlines body))
         | None \<Rightarrow> process_file cfg p sz (Some text) st = st"
  using assms(4)
  by (simp add: process_file_unfold [OF assms(1-3)] Let_def update_Some_unfold
      split: option.split)

theorem truncated_file_stats_witness:
  "\<exists>s. map_of (file_stats (process_file \<lparr>max_file_size = 100, max_token_length = 2\<rparr> ''a.py'' 5
      (Some ''x = 1'') \<lparr>file_stats = [], flattened_content = []\<rparr>)) ''a.py'' = Some s \<and>
     last (flattened_content (process_file \<lparr>max_file_size = 100, max_token_length = 2\<rparr> ''a.py'' 5
      (Some ''x = 1'') \<lparr>file_stats = [], flattened_content = []\<rparr>)) =
       file_section ''a.py'' (''x ='' @ MARKER) \<and>
     tokens s = 3 \<and> lines s = 2"
proof -
  have h1: "map_of SUPPORTED_EXTENSIONS (lower (splitext_ext ''a.py'')) \<noteq> None" by code_simp
  have c: "clean_code ''x = 1'' ''a.py'' = ''x = 1''" by code_simp
  have h3: "clean_code ''x = 1'' ''a.py'' \<noteq> []" by (simp add: c)
  have e: "estimate_tokens ''x = 1'' = 3" by code_simp
  have t: "truncate_content ''x = 1'' 3 2 = Some (''x ='' @ MARKER)" by code_simp
  have l: "length (splitlines (CHR ''x'' # CHR '' '' # CHR ''='' # MARKER)) = 2" by code_simp
  from truncated_file_stats [OF h1 _ h3, of 5 "\<lparr>max_file_size = 100, max_token_length = 2\<rparr>"
      "\<lparr>file_stats = [], flattened_content = []\<rparr>"]
  show ?thesis by (auto simp: c e t l)
qed

text \<open>
  C10: whatever the extension of a processed file and the language it maps to, its
  section wraps the body in a fenced block labelled \<open>python\<close>. The body is the normalised
  content, cut when its estimate is above the limit; a file whose cut raises has no
  section.
\<close>

theorem section_labelled_python:
  assumes "map_of SUPPORTED_EXTENSIONS (lower (splitext_ext p)) \<noteq> None"
    and "int sz \<le> max_file_size cfg"
    and "clean_code text p \<noteq> []"
  shows "case (if int (estimate_tokens (clean_code text p)) > max_token_length cfg
               then truncate_content (clean_code text p) (estimate_tokens (clean_code text p))
                      (max_token_length cfg)
               else Some (clean_code text p)) of
           Some body \<Rightarrow>
             flattened_content (process_file cfg p sz (Some text) st) =
               flattened_content st @
                 [''### File: '' @ p @ ''\<newline>```python\<newline>'' @ body @ ''\<newline>```\<newline>'']
         | None \<Rightarrow> process_file cfg p sz (Some text) st = st"
  by (simp add: process_file_unfold [OF assms] Let_def file_section_def split: option.split)

theorem section_labelled_python_witness:
  "flattened_content (process_file \<lparr>max_file_size = 100, max_token_length = 9\<rparr>
      ''src/app.js'' 5 (Some ''x = 1'') \<lparr>file_stats = [], flattened_content = []\<rparr>) =
     [''### File: src/app.js\<newline>```python\<newline>x = 1\<newline>```\<newline>'']"
proof -
  have h1: "map_of SUPPORTED_EXTENSIONS (lower (splitext_ext ''src/app.js'')) \<noteq> None"
    by code_simp
  have c: "clean_code ''x = 1'' ''src/app.js'' = ''x = 1''" by code_simp
  have h3: "clean_code ''x = 1'' ''src/app.js'' \<noteq> []" by (simp add: c)
  have e: "estimate_tokens ''x = 1'' = 3" by code_simp
  from section_labelled_python [OF h1 _ h3, of 5 "\<lparr>max_file_size = 100, max_token_length = 9\<rparr>"
      "\<lparr>file_stats = [], flattened_content = []\<rparr>"]
  show ?thesis by (simp add: c e)
qed

subsection \<open>The token estimate of a cut text\<close>

lemma word_runs_append:
  "word_runs prev (s @ t) = word_runs prev s + word_runs (if s = [] then prev else is_word (last s)) t"
  by (induction s arbitrary: prev) auto

lemma word_runs_take: "word_runs prev (take k s) \<le> word_runs prev s"
proof (induction s arbitrary: k prev)
  case Nil
  then show ?case by simp
next
  case (Cons c cs)
  show ?case
  proof (cases k)
    case 0
    then show ?thesis by simp
  next
    case (Suc j)
    with Cons [of "is_word c" j] show ?thesis by simp
  qed
qed

lemma filter_take_length: "length (filter P (take k s)) \<le> length (filter P s)"
proof -
  have "length (filter P s) = length (filter P (take k s)) + length (filter P (drop k s))"
    by (metis append_take_drop_id filter_append length_append)
  then show ?thesis by simp
qed

lemma estimate_tokens_take: "estimate_tokens (take k s) \<le> estimate_tokens s"
  using word_runs_take [of False k s]
    filter_take_length [of "\<lambda>c. \<not> is_word c \<and> \<not> is_space c" k s]
  by (simp add: estimate_tokens_def)

lemma word_runs_MARKER: "word_runs True MARKER = word_runs False MARKER"
proof -
  have m: "MARKER = CHR 0x0A # tl MARKER" by (simp add: MARKER_def)
  have w: "\<not> is_word (CHR 0x0A)" by (simp add: is_word_def)
  have "word_runs True (CHR 0x0A # tl MARKER) = word_runs False (CHR 0x0A # tl MARKER)"
    using w by simp
  with m show ?thesis by simp
qed

lemma estimate_tokens_append_MARKER:
  "estimate_tokens (s @ MARKER) = estimate_tokens s + estimate_tokens MARKER"
  by (cases "is_word (last s)")
     (simp_all add: estimate_tokens_def word_runs_append word_runs_MARKER)

lemma slice_to_take: "\<exists>k. slice_to s i = take k s"
  by (auto simp: slice_to_def)

lemma estimate_tokens_MARKER: "estimate_tokens MARKER = 14"
  by code_simp

text \<open>
  C2, as stated, fails: the cut is proportional in characters, and the tokens of a text
  need not be spread evenly over its characters. With a limit of 1 the text
  \<open>!!!aaaaaaaaa\<close> (estimate 4, length 12) is cut to \<open>!!!\<close>, and the result
  estimates to 17, above the limit plus the 14 tokens of the marker.
\<close>

theorem truncation_not_token_bounded:
  "int (estimate_tokens ''!!!aaaaaaaaa'') > 1 \<and>
   truncate_content ''!!!aaaaaaaaa'' (estimate_tokens ''!!!aaaaaaaaa'') 1 = Some (''!!!'' @ MARKER) \<and>
   \<not> int (estimate_tokens (''!!!'' @ MARKER)) \<le> 1 + int (estimate_tokens MARKER)"
  by code_simp

text \<open>
  C2, amended. Whenever the truncation step returns, its result is a prefix of the text
  followed by the marker, and the estimate of the result is the estimate of that prefix
  plus the cost of the marker, hence at most the estimate of the whole text plus the
  cost of the marker. For a limit that is not negative and below the estimate of the
  text, with \<open>len * limit\<close> below $2^{53}$ (where the floating-point quotient of line 252 has
  the integer part of the exact one), the step does return, and the prefix has exactly
  \<open>len * limit div estimate\<close> characters.
\<close>

theorem truncation_bounds:
  "(\<forall>r. truncate_content text (estimate_tokens text) limit = Some r \<longrightarrow>
       (\<exists>k. r = take k text @ MARKER \<and>
            estimate_tokens r = estimate_tokens (take k text) + estimate_tokens MARKER) \<and>
       estimate_tokens r \<le> estimate_tokens text + estimate_tokens MARKER) \<and>
   (0 \<le> limit \<and> limit < int (estimate_tokens text) \<and> int (length text) * limit < 2 ^ 53 \<longrightarrow>
       truncate_content text (estimate_tokens text) limit =
         Some (take (nat (int (length text) * limit div int (estimate_tokens text))) text @
               MARKER))"
proof (intro conjI allI impI)
  fix r
  assume "truncate_content text (estimate_tokens text) limit = Some r"
  then obtain i where "r = slice_to text i @ MARKER" by (auto simp: truncate_content_def)
  with slice_to_take [of "text" i] obtain k where r: "r = take k text @ MARKER" by auto
  then show "\<exists>k. r = take k text @ MARKER \<and>
      estimate_tokens r = estimate_tokens (take k text) + estimate_tokens MARKER"
    by (auto simp: estimate_tokens_append_MARKER)
  show "estimate_tokens r \<le> estimate_tokens text + estimate_tokens MARKER"
    using estimate_tokens_take [of k "text"]
    by (simp only: r estimate_tokens_append_MARKER add_le_cancel_right)
next
  assume a: "0 \<le> limit \<and> limit < int (estimate_tokens text) \<and>
    int (length text) * limit < 2 ^ 53"
  then have "0 < estimate_tokens text" by linarith
  with a show "truncate_content text (estimate_tokens text) limit =
      Some (take (nat (int (length text) * limit div int (estimate_tokens text))) text @ MARKER)"
    by (intro truncate_content_exact) simp_all
qed

theorem truncation_bounds_witness:
  "truncate_content ''x = 1'' (estimate_tokens ''x = 1'') 2 = Some (''x ='' @ MARKER) \<and>
   estimate_tokens (''x ='' @ MARKER) \<le> estimate_tokens ''x = 1'' + estimate_tokens MARKER"
proof -
  have e: "estimate_tokens ''x = 1'' = 3" by code_simp
  have l: "length ''x = 1'' = 5" by simp
  have t: "take (nat (10 div 3)) ''x = 1'' = ''x =''" by simp
  from truncation_bounds [of "''x = 1''" 2]
  have 1: "\<forall>r. truncate_content ''x = 1'' 3 2 = Some r \<longrightarrow>
      estimate_tokens r \<le> 3 + estimate_tokens MARKER"
    and 2: "truncate_content ''x = 1'' 3 2 = Some (''x ='' @ MARKER)"
    by (simp_all add: e l t)
  from 1 2 show ?thesis by (simp add: e)
qed

subsection \<open>The blank-line step applied twice\<close>
















section \<open>Properties of the ignore rules\<close>

text \<open>
  C1: the rule \<open>a/**/b\<close> should exclude the path \<open>a/x/y/b\<close>. It does not: the
  replacement of \<open>**\<close> by \<open>.*\<close> is followed by the replacement of every \<open>*\<close>, which
  rewrites the star just written, so that \<open>**\<close> compiles to \<open>.[^/]*\<close>, one character
  and then no separator. The pattern with \<open>.*\<close>, which the comment in the source
  describes, does match the path.
\<close>

theorem double_star_single_segment:
  "glob_to_regex ''a/**/b'' = ''(?:^|/)a/.[^/]*/b$'' \<and>
   should_ignore (load_gitignore (Some [''a/**/b'']) []) ''a/x/y/b'' = Some False \<and>
   re_search ''(?:^|/)a/.*/b$'' ''a/x/y/b'' = Some True"
  by code_simp

text \<open>
  The lines of the exclusion file that begin with \<open>!\<close> once stripped are skipped by the
  loop of \<open>_load_gitignore\<close>: the rules, and so every answer of \<open>_should_ignore\<close>, are those
  of the file without such lines.
\<close>

lemma gitignore_patterns_negation:
  "gitignore_patterns (filter (\<lambda>line. \<not> prefix ''!'' (strip line)) file_lines) =
   gitignore_patterns file_lines"
proof -
  have "filter (\<lambda>line. line \<noteq> [] \<and> \<not> prefix ''#'' line \<and> \<not> prefix ''!'' line)
          (map strip (filter (\<lambda>line. \<not> prefix ''!'' (strip line)) file_lines)) =
        filter (\<lambda>line. line \<noteq> [] \<and> \<not> prefix ''#'' line \<and> \<not> prefix ''!'' line)
          (map strip file_lines)"
    by (induction file_lines) auto
  then show ?thesis by (simp add: gitignore_patterns_def)
qed

lemma file_negation_dropped:
  "load_gitignore (Some file_lines) ignore_patterns =
     load_gitignore (Some (filter (\<lambda>line. \<not> prefix ''!'' (strip line)) file_lines))
       ignore_patterns"
  by (simp add: load_gitignore_def gitignore_patterns_negation)

text \<open>
  C4: a rule that begins with \<open>!\<close> should be dropped, contribute no matcher and change no
  answer of \<open>_should_ignore\<close>. For the patterns that the caller passes it is not: line 139
  hands them to \<open>_glob_to_regex\<close> without the test that the loop over the file makes
  (lines 119 to 121, ``skip negation patterns''). With an exclusion file that is present
  and empty, the caller's pattern \<open>!x\<close> becomes the rule \<open>(?:^|/)!x$\<close>, and the path \<open>!x\<close>,
  which is kept without that pattern, is excluded with it.
\<close>

theorem caller_negation_not_dropped:
  "load_gitignore (Some []) [''!x''] = default_patterns @ [''(?:^|/)!x$''] \<and>
   load_gitignore (Some []) [] = default_patterns \<and>
   should_ignore (load_gitignore (Some []) [''!x'']) ''!x'' = Some True \<and>
   should_ignore (load_gitignore (Some []) []) ''!x'' = Some False"
  by code_simp

subsection \<open>The shape of a compiled glob\<close>

text \<open>
  The replacements of \<open>_glob_to_regex\<close> act on the escaped pattern character by
  character, but for the pairs of stars: \<open>stars\<close> is the pattern after the first three
  replacements and \<open>expand\<close> the last two.
\<close>

definition esc :: "char \<Rightarrow> string" where
  "esc c = (if c \<in> set special_chars then [CHR 0x5C, c] else [c])"

definition esc1 :: "char \<Rightarrow> string" where
  "esc1 c = (if c = CHR ''*'' then ''*'' else esc c)"

definition esc2 :: "char \<Rightarrow> string" where
  "esc2 c = (if c = CHR ''*'' then ''*'' else if c = CHR ''?'' then ''?'' else esc c)"

fun stars :: "string \<Rightarrow> string" where
  "stars [] = []"
| "stars [c] = esc2 c"
| "stars (c # d # cs) =
     (if c = CHR ''*'' \<and> d = CHR ''*'' then ''.*'' @ stars cs else esc2 c @ stars (d # cs))"

lemma special_simps:
  "CHR 0x5C \<in> set special_chars" "CHR ''*'' \<in> set special_chars"
  "CHR ''?'' \<in> set special_chars"
  by (simp_all add: special_chars_def)

lemma re_escape_esc: "re_escape p = concat (map esc p)"
  by (simp add: re_escape_def esc_def [abs_def])

lemma esc_hd: "concat (map esc cs) \<noteq> CHR ''*'' # r"
  by (cases cs) (auto simp: esc_def special_simps)

lemma esc1_hd: "concat (map esc1 cs) \<noteq> CHR ''?'' # r"
  by (cases cs) (auto simp: esc1_def esc_def special_simps)

lemma esc2_hd: "concat (map esc2 (d # cs)) = CHR ''*'' # r \<Longrightarrow> d = CHR ''*''"
  by (auto simp: esc2_def esc_def special_simps split: if_splits)


lemma replace_match: "old \<noteq> [] \<Longrightarrow> replace old new (old @ s) = new @ replace old new s"
  by (cases old) simp_all

lemma replace_nomatch:
  "\<not> prefix old (c # cs) \<Longrightarrow> replace old new (c # cs) = c # replace old new cs"
  by simp

lemma replace_Nil: "replace old new [] = []"
  by simp

declare replace.simps [simp del]

lemma prefix2: "prefix [a, b] (c # s) \<longleftrightarrow> a = c \<and> (\<exists>r. s = b # r)"
  by (cases s) auto

lemma stage1: "replace [CHR 0x5C, CHR ''*''] ''*'' (concat (map esc p)) = concat (map esc1 p)"
proof (induction p)
  case Nil
  show ?case by (simp add: replace_Nil)
next
  case (Cons c cs)
  let ?rest = "concat (map esc cs)"
  let ?old = "[CHR 0x5C, CHR ''*'']"
  consider "c = CHR ''*''" | "c \<noteq> CHR ''*''" "c \<in> set special_chars" | "c \<notin> set special_chars"
    by blast
  then show ?case
  proof cases
    case 1
    then have ec: "esc c = ?old" and e1c: "esc1 c = ''*''"
      by (simp_all add: esc_def esc1_def special_simps)
    have "replace ?old ''*'' (?old @ ?rest) = ''*'' @ replace ?old ''*'' ?rest"
      by (rule replace_match) simp
    with Cons show ?thesis by (simp add: ec e1c)
  next
    case 2
    then have ec: "esc c = [CHR 0x5C, c]" and e1c: "esc1 c = [CHR 0x5C, c]"
      by (simp_all add: esc_def esc1_def)
    have n1: "\<not> prefix ?old (CHR 0x5C # c # ?rest)" using 2(1) unfolding prefix2 by blast
    have n2: "\<not> prefix ?old (c # ?rest)" using esc_hd [of cs] unfolding prefix2 by blast
    have "replace ?old ''*'' (CHR 0x5C # c # ?rest) = CHR 0x5C # c # replace ?old ''*'' ?rest"
      by (simp only: replace_nomatch [OF n1] replace_nomatch [OF n2])
    with Cons show ?thesis by (simp add: ec e1c)
  next
    case 3
    then have c: "c \<noteq> CHR 0x5C" "c \<noteq> CHR ''*''" using special_simps by auto
    with 3 have ec: "esc c = [c]" and e1c: "esc1 c = [c]"
      by (simp_all add: esc_def esc1_def)
    have n: "\<not> prefix ?old (c # ?rest)" using c unfolding prefix2 by blast
    have "replace ?old ''*'' (c # ?rest) = c # replace ?old ''*'' ?rest"
      by (simp only: replace_nomatch [OF n])
    with Cons show ?thesis by (simp add: ec e1c)
  qed
qed

lemma stage2: "replace [CHR 0x5C, CHR ''?''] ''?'' (concat (map esc1 p)) = concat (map esc2 p)"
proof (induction p)
  case Nil
  show ?case by (simp add: replace_Nil)
next
  case (Cons c cs)
  let ?rest = "concat (map esc1 cs)"
  let ?old = "[CHR 0x5C, CHR ''?'']"
  consider "c = CHR ''?''" | "c = CHR ''*''"
    | "c \<noteq> CHR ''?''" "c \<noteq> CHR ''*''" "c \<in> set special_chars" | "c \<notin> set special_chars"
    by blast
  then show ?case
  proof cases
    case 1
    then have ec: "esc1 c = ?old" and e1c: "esc2 c = ''?''"
      by (simp_all add: esc_def esc1_def esc2_def special_simps)
    have "replace ?old ''?'' (?old @ ?rest) = ''?'' @ replace ?old ''?'' ?rest"
      by (rule replace_match) simp
    with Cons show ?thesis by (simp add: ec e1c)
  next
    case 2
    then have ec: "esc1 c = ''*''" and e1c: "esc2 c = ''*''"
      by (simp_all add: esc1_def esc2_def)
    have n: "\<not> prefix ?old (CHR ''*'' # ?rest)" unfolding prefix2 by simp
    have "replace ?old ''?'' (CHR ''*'' # ?rest) = CHR ''*'' # replace ?old ''?'' ?rest"
      by (simp only: replace_nomatch [OF n])
    with Cons show ?thesis by (simp add: ec e1c)
  next
    case 3
    then have ec: "esc1 c = [CHR 0x5C, c]" and e1c: "esc2 c = [CHR 0x5C, c]"
      by (simp_all add: esc_def esc1_def esc2_def)
    have n1: "\<not> prefix ?old (CHR 0x5C # c # ?rest)" using 3(1) unfolding prefix2 by blast
    have n2: "\<not> prefix ?old (c # ?rest)" using esc1_hd [of cs] unfolding prefix2 by blast
    have "replace ?old ''?'' (CHR 0x5C # c # ?rest) = CHR 0x5C # c # replace ?old ''?'' ?rest"
      by (simp only: replace_nomatch [OF n1] replace_nomatch [OF n2])
    with Cons show ?thesis by (simp add: ec e1c)
  next
    case 4
    then have c: "c \<noteq> CHR 0x5C" "c \<noteq> CHR ''*''" "c \<noteq> CHR ''?''" using special_simps by auto
    with 4 have ec: "esc1 c = [c]" and e1c: "esc2 c = [c]"
      by (simp_all add: esc_def esc1_def esc2_def)
    have n: "\<not> prefix ?old (c # ?rest)" using c unfolding prefix2 by blast
    have "replace ?old ''?'' (c # ?rest) = c # replace ?old ''?'' ?rest"
      by (simp only: replace_nomatch [OF n])
    with Cons show ?thesis by (simp add: ec e1c)
  qed
qed

lemma stars_step:
  assumes "c \<noteq> CHR ''*'' \<or> (\<forall>r. rest \<noteq> CHR ''*'' # r)"
  shows "replace ''**'' ''.*'' (esc2 c @ rest) = esc2 c @ replace ''**'' ''.*'' rest"
proof -
  consider "c = CHR ''*''" | "c = CHR ''?''"
    | "c \<noteq> CHR ''?''" "c \<noteq> CHR ''*''" "c \<in> set special_chars" | "c \<notin> set special_chars"
    by blast
  then show ?thesis
  proof cases
    case 1
    with assms have n: "\<not> prefix ''**'' (CHR ''*'' # rest)" unfolding prefix2 by blast
    from 1 have "esc2 c = ''*''" by (simp add: esc2_def)
    then show ?thesis using replace_nomatch [OF n] by simp
  next
    case 2
    have n: "\<not> prefix ''**'' (CHR ''?'' # rest)" unfolding prefix2 by simp
    from 2 have "esc2 c = ''?''" by (simp add: esc2_def)
    then show ?thesis using replace_nomatch [OF n] by simp
  next
    case 3
    have n1: "\<not> prefix ''**'' (CHR 0x5C # c # rest)" unfolding prefix2 by simp
    have n2: "\<not> prefix ''**'' (c # rest)" using 3(2) unfolding prefix2 by blast
    from 3 have "esc2 c = [CHR 0x5C, c]" by (simp add: esc2_def esc_def)
    then show ?thesis using replace_nomatch [OF n1] replace_nomatch [OF n2] by simp
  next
    case 4
    then have c: "c \<noteq> CHR ''*''" "c \<noteq> CHR ''?''" using special_simps by auto
    then have n: "\<not> prefix ''**'' (c # rest)" unfolding prefix2 by blast
    from 4 c have "esc2 c = [c]" by (simp add: esc2_def esc_def)
    then show ?thesis using replace_nomatch [OF n] by simp
  qed
qed

lemma stage3: "replace ''**'' ''.*'' (concat (map esc2 p)) = stars p"
proof (induction p rule: stars.induct)
  case 1
  show ?case by (simp add: replace_Nil)
next
  case (2 c)
  have "replace ''**'' ''.*'' (esc2 c @ []) = esc2 c @ replace ''**'' ''.*'' []"
    by (rule stars_step) simp
  then show ?case by (simp add: replace_Nil)
next
  case (3 c d cs)
  show ?case
  proof (cases "c = CHR ''*'' \<and> d = CHR ''*''")
    case True
    have s: "esc2 (CHR ''*'') = ''*''" by (simp add: esc2_def)
    have "replace ''**'' ''.*'' (''**'' @ concat (map esc2 cs)) =
        ''.*'' @ replace ''**'' ''.*'' (concat (map esc2 cs))"
      by (rule replace_match) simp
    with True 3(1) show ?thesis by (simp add: s)
  next
    case False
    then have "c \<noteq> CHR ''*'' \<or> (\<forall>r. concat (map esc2 (d # cs)) \<noteq> CHR ''*'' # r)"
      using esc2_hd [of d cs] by blast
    from stars_step [OF this] 3(2) [OF False] have
      "replace ''**'' ''.*'' (concat (map esc2 (c # d # cs))) = esc2 c @ stars (d # cs)"
      by simp
    moreover from False have "stars (c # d # cs) = esc2 c @ stars (d # cs)" by auto
    ultimately show ?thesis by (simp only:)
  qed
qed

lemma replace_char: "replace [a] new s = concat (map (\<lambda>c. if c = a then new else [c]) s)"
proof (induction s)
  case Nil
  show ?case by (simp add: replace_Nil)
next
  case (Cons c cs)
  show ?case
  proof (cases "c = a")
    case True
    have "replace [a] new ([a] @ cs) = new @ replace [a] new cs" by (rule replace_match) simp
    with True Cons show ?thesis by simp
  next
    case False
    then have "\<not> prefix [a] (c # cs)" by simp
    from replace_nomatch [OF this] False Cons show ?thesis by simp
  qed
qed

definition expand :: "string \<Rightarrow> string" where
  "expand s =
     concat (map (\<lambda>c. if c = CHR ''?'' then ''[^/]'' else [c])
       (concat (map (\<lambda>c. if c = CHR ''*'' then ''[^/]*'' else [c]) s)))"

lemma expand_append: "expand (a @ b) = expand a @ expand b"
  by (simp add: expand_def)

lemma glob_body:
  "replace ''?'' ''[^/]'' (replace ''*'' ''[^/]*'' (replace ''**'' ''.*''
     (replace [CHR 0x5C, CHR ''?''] ''?''
        (replace [CHR 0x5C, CHR ''*''] ''*'' (re_escape p))))) = expand (stars p)"
  by (simp only: re_escape_esc stage1 stage2 stage3 replace_char expand_def)

definition is_tok :: "string \<Rightarrow> bool" where
  "is_tok t \<longleftrightarrow>
     t = ''[^/]*'' \<or> t = ''[^/]'' \<or> t = ''.'' \<or>
     (\<exists>c. c \<in> set special_chars \<and> c \<noteq> CHR ''*'' \<and> c \<noteq> CHR ''?'' \<and> t = [CHR 0x5C, c]) \<or>
     (\<exists>c. c \<notin> set special_chars \<and> t = [c])"

definition toks :: "string \<Rightarrow> bool" where
  "toks w \<longleftrightarrow> (\<exists>ts. w = concat ts \<and> (\<forall>t \<in> set ts. is_tok t))"

lemma toks_Nil: "toks []"
  unfolding toks_def by (rule exI [of _ "[]"]) simp

lemma toks_Cons: "is_tok t \<Longrightarrow> toks w \<Longrightarrow> toks (t @ w)"
  unfolding toks_def
proof -
  assume t: "is_tok t" and "\<exists>ts. w = concat ts \<and> (\<forall>t \<in> set ts. is_tok t)"
  then obtain ts where "w = concat ts" "\<forall>t \<in> set ts. is_tok t" by blast
  with t have "t @ w = concat (t # ts) \<and> (\<forall>u \<in> set (t # ts). is_tok u)" by simp
  then show "\<exists>ts. t @ w = concat ts \<and> (\<forall>t \<in> set ts. is_tok t)" by blast
qed

lemma is_tok_expand_esc2: "is_tok (expand (esc2 c))"
proof -
  consider "c = CHR ''*''" | "c = CHR ''?''"
    | "c \<noteq> CHR ''?''" "c \<noteq> CHR ''*''" "c \<in> set special_chars" | "c \<notin> set special_chars"
    by blast
  then show ?thesis
  proof cases
    case 1
    then have "expand (esc2 c) = ''[^/]*''" by (simp add: esc2_def expand_def)
    then show ?thesis by (simp add: is_tok_def)
  next
    case 2
    then have "expand (esc2 c) = ''[^/]''" by (simp add: esc2_def expand_def)
    then show ?thesis by (simp add: is_tok_def)
  next
    case 3
    then have "expand (esc2 c) = [CHR 0x5C, c]" by (simp add: esc2_def esc_def expand_def)
    with 3 show ?thesis unfolding is_tok_def by blast
  next
    case 4
    then have c: "c \<noteq> CHR ''*''" "c \<noteq> CHR ''?''" using special_simps by auto
    with 4 have "expand (esc2 c) = [c]" by (simp add: esc2_def esc_def expand_def)
    with 4 show ?thesis unfolding is_tok_def by blast
  qed
qed

lemma expand_dot_star: "expand ''.*'' = ''.'' @ ''[^/]*''"
  by (simp add: expand_def)

lemma toks_expand_stars: "toks (expand (stars p))"
proof (induction p rule: stars.induct)
  case 1
  show ?case by (simp add: expand_def toks_Nil)
next
  case (2 c)
  from toks_Cons [OF is_tok_expand_esc2 toks_Nil, of c] show ?case by simp
next
  case (3 c d cs)
  show ?case
  proof (cases "c = CHR ''*'' \<and> d = CHR ''*''")
    case True
    have d: "is_tok ''.''" and s: "is_tok ''[^/]*''" by (simp_all add: is_tok_def)
    from True have "expand (stars (c # d # cs)) = ''.'' @ ''[^/]*'' @ expand (stars cs)"
      by (simp add: expand_def)
    with toks_Cons [OF d toks_Cons [OF s 3(1) [OF True]]] show ?thesis by simp
  next
    case False
    then have "expand (stars (c # d # cs)) = expand (esc2 c) @ expand (stars (d # cs))"
      by (auto simp: expand_append)
    with toks_Cons [OF is_tok_expand_esc2 3(2) [OF False]] show ?thesis by simp
  qed
qed

lemma is_tok_nonempty: "is_tok t \<Longrightarrow> t \<noteq> []"
  by (auto simp: is_tok_def)

lemma slash_not_special: "CHR ''/'' \<notin> set special_chars"
  by (simp add: special_chars_def)

lemma is_tok_last_slash: "is_tok t \<Longrightarrow> last t = CHR ''/'' \<Longrightarrow> t = ''/''"
  using slash_not_special by (auto simp: is_tok_def)

lemma is_tok_hd_slash: "is_tok t \<Longrightarrow> hd t = CHR ''/'' \<Longrightarrow> t = ''/''"
  by (auto simp: is_tok_def)

lemma toks_butlast:
  assumes "toks w" and "w \<noteq> []" and "last w = CHR ''/''"
  shows "toks (butlast w)"
proof -
  from assms(1) obtain ts where ts: "w = concat ts" "\<forall>t \<in> set ts. is_tok t"
    unfolding toks_def by blast
  with assms(2) have "ts \<noteq> []" by auto
  then obtain us t where u: "ts = us @ [t]" by (metis rev_exhaust)
  with ts have t: "is_tok t" and us: "\<forall>t \<in> set us. is_tok t" by auto
  from t have "t \<noteq> []" by (rule is_tok_nonempty)
  with ts(1) u assms(3) have "last t = CHR ''/''" by simp
  with t have "t = ''/''" by (rule is_tok_last_slash)
  with ts(1) u have "butlast w = concat us" by simp
  with us show ?thesis unfolding toks_def by blast
qed

lemma toks_tl:
  assumes "toks w" and "w \<noteq> []" and "hd w = CHR ''/''"
  shows "toks (tl w)"
proof -
  from assms(1) obtain ts where ts: "w = concat ts" "\<forall>t \<in> set ts. is_tok t"
    unfolding toks_def by blast
  with assms(2) obtain t us where u: "ts = t # us" by (cases ts) auto
  with ts have t: "is_tok t" and us: "\<forall>t \<in> set us. is_tok t" by auto
  from t have "t \<noteq> []" by (rule is_tok_nonempty)
  with ts(1) u assms(3) have "hd t = CHR ''/''" by simp
  with t have "t = ''/''" by (rule is_tok_hd_slash)
  with ts(1) u have "tl w = concat us" by simp
  with us show ?thesis unfolding toks_def by blast
qed

subsection \<open>A compiled glob is a pattern\<close>

lemma special_not_alnum: "c \<in> set special_chars \<Longrightarrow> \<not> is_ascii_alnum c"
  by (auto simp: special_chars_def is_ascii_alnum_def)

lemma nonspecial_plain:
  assumes "c \<notin> set special_chars"
  shows "c \<noteq> CHR 0x5C" "c \<noteq> CHR ''(''" "c \<noteq> CHR '')''" "c \<noteq> CHR ''|''" "c \<noteq> CHR ''*''"
    "c \<noteq> CHR ''?''" "c \<noteq> CHR ''+''" "c \<noteq> CHR ''{''" "c \<noteq> CHR ''[''" "c \<noteq> CHR ''.''"
    "c \<noteq> CHR ''^''" "c \<noteq> CHR ''$''"
  using assms by (auto simp: special_chars_def)

lemma parse_plain:
  "c \<notin> set special_chars \<Longrightarrow> parse stack f (c # rest) = parse stack (fst f, Lit c # snd f) rest"
  by (simp add: parse.simps nonspecial_plain)

lemma parse_escaped:
  "c \<in> set special_chars \<Longrightarrow>
   parse stack f (CHR 0x5C # c # rest) = parse stack (fst f, Lit c # snd f) rest"
  by (simp add: parse.simps special_not_alnum)

lemma parse_dot: "parse stack f (CHR ''.'' # rest) = parse stack (fst f, Any # snd f) rest"
  by (simp add: parse.simps)

lemma parse_set_slash: "parse_set (''^/]'' @ rest) = Some (NotIn ''/'', rest)"
  by (simp add: set_body_def set_item_def)

lemma parse_not_slash:
  "parse stack f (''[^/]'' @ rest) = parse stack (fst f, NotIn ''/'' # snd f) rest"
  using parse_set_slash [of rest] by (simp add: parse.simps)

lemma parse_star:
  "repeatable r \<Longrightarrow>
   parse stack (a, r # rs) (CHR ''*'' # rest) = parse stack (a, Star r # rs) rest"
  by (simp add: parse.simps)

lemma parse_not_slash_star:
  "parse stack f (''[^/]*'' @ rest) = parse stack (fst f, Star (NotIn ''/'') # snd f) rest"
proof -
  have "parse stack f (''[^/]*'' @ rest) = parse stack f (''[^/]'' @ CHR ''*'' # rest)" by simp
  also have "\<dots> = parse stack (fst f, NotIn ''/'' # snd f) (CHR ''*'' # rest)"
    by (rule parse_not_slash)
  also have "\<dots> = parse stack (fst f, Star (NotIn ''/'') # snd f) rest"
    by (rule parse_star) simp
  finally show ?thesis .
qed

lemma parse_tok:
  assumes "is_tok t"
  shows "\<exists>r. \<forall>stack f rest. parse stack f (t @ rest) = parse stack (fst f, r # snd f) rest"
proof -
  from assms consider "t = ''[^/]*''" | "t = ''[^/]''" | "t = ''.''"
    | c where "c \<in> set special_chars" "t = [CHR 0x5C, c]"
    | c where "c \<notin> set special_chars" "t = [c]"
    unfolding is_tok_def by blast
  then show ?thesis
  proof cases
    case 1
    then show ?thesis using parse_not_slash_star by blast
  next
    case 2
    then show ?thesis using parse_not_slash by blast
  next
    case 3
    then show ?thesis using parse_dot by (intro exI [of _ Any]) simp
  next
    case 4
    then show ?thesis using parse_escaped by (intro exI [of _ "Lit c"]) simp
  next
    case 5
    then show ?thesis using parse_plain by (intro exI [of _ "Lit c"]) simp
  qed
qed

lemma parse_toks_list:
  "\<forall>t \<in> set ts. is_tok t \<Longrightarrow>
   \<exists>items. parse stack f (concat ts @ rest) = parse stack (fst f, items @ snd f) rest"
proof (induction ts arbitrary: f)
  case Nil
  show ?case by (rule exI [of _ "[]"]) simp
next
  case (Cons t ts)
  then have "is_tok t" by simp
  from parse_tok [OF this] obtain r where
    r: "\<And>stack f rest. parse stack f (t @ rest) = parse stack (fst f, r # snd f) rest" by blast
  from Cons have "\<forall>t \<in> set ts. is_tok t" by simp
  from Cons.IH [OF this, of "(fst f, r # snd f)"] obtain items where
    "parse stack (fst f, r # snd f) (concat ts @ rest) =
       parse stack (fst f, items @ r # snd f) rest" by auto
  with r [of stack f "concat ts @ rest"]
  have "parse stack f (concat (t # ts) @ rest) = parse stack (fst f, (items @ [r]) @ snd f) rest"
    by simp
  then show ?case by blast
qed

lemma parse_toks:
  "toks w \<Longrightarrow> \<exists>items. parse stack f (w @ rest) = parse stack (fst f, items @ snd f) rest"
  unfolding toks_def using parse_toks_list by blast

lemma repeatable_mk_seq: "repeatable (mk_seq [Lit a, Star Any])"
  by (simp add: mk_seq_def)

lemma parse_tail:
  "suf = [] \<or> suf = ''(?:/.*)?'' \<Longrightarrow> parse [] (a, cur) (suf @ ''$'') \<noteq> None"
  by (auto simp: parse.simps close_frame_def mk_seq_def)

lemma parse_framed:
  assumes "toks w" and "pre = ''^'' \<or> pre = ''(?:^|/)''" and "suf = [] \<or> suf = ''(?:/.*)?''"
  shows "parse [] ([], []) (pre @ w @ suf @ ''$'') \<noteq> None"
proof -
  from assms(2) obtain cur where
    "parse [] ([], []) (pre @ w @ suf @ ''$'') = parse [] ([], cur) (w @ suf @ ''$'')"
    by (auto simp: parse.simps)
  moreover from parse_toks [OF assms(1), of "[]" "([], cur)" "suf @ ''$''"] obtain items where
    "parse [] ([], cur) (w @ suf @ ''$'') = parse [] ([], items @ cur) (suf @ ''$'')" by auto
  ultimately show ?thesis using parse_tail [OF assms(3)] by simp
qed

lemma glob_shape:
  assumes "p \<noteq> []"
  shows "\<exists>pre w suf. toks w \<and> (pre = ''^'' \<or> pre = ''(?:^|/)'') \<and>
           (suf = [] \<or> suf = ''(?:/.*)?'') \<and> glob_to_regex p = pre @ w @ suf @ ''$''"
proof -
  define b where "b = expand (stars p)"
  define p5 where "p5 = (if b \<noteq> [] \<and> last b = CHR ''/'' then butlast b @ ''(?:/.*)?'' else b)"
  define p6 where "p6 = (if p5 \<noteq> [] \<and> hd p5 = CHR ''/'' then ''^'' @ tl p5 else ''(?:^|/)'' @ p5)"
  have g: "glob_to_regex p = p6 @ ''$''"
    using assms by (simp add: glob_to_regex_def glob_body Let_def p6_def p5_def b_def)
  have tb: "toks b" unfolding b_def by (rule toks_expand_stars)
  obtain w suf where w: "toks w" "suf = [] \<or> suf = ''(?:/.*)?''" "p5 = w @ suf"
  proof (cases "b \<noteq> [] \<and> last b = CHR ''/''")
    case True
    then have "toks (butlast b)" using toks_butlast [OF tb] by blast
    moreover from True have "p5 = butlast b @ ''(?:/.*)?''" by (simp add: p5_def)
    ultimately show ?thesis using that by blast
  next
    case False
    then have "p5 = b @ []" by (auto simp: p5_def)
    with tb show ?thesis using that by blast
  qed
  have "\<exists>pre w'. toks w' \<and> (pre = ''^'' \<or> pre = ''(?:^|/)'') \<and> p6 = pre @ w' @ suf"
  proof (cases "p5 \<noteq> [] \<and> hd p5 = CHR ''/''")
    case True
    have "w \<noteq> []"
    proof
      assume "w = []"
      with w(2,3) True show False by auto
    qed
    with True w(3) have h: "hd w = CHR ''/''" and t: "tl p5 = tl w @ suf" by simp_all
    from toks_tl [OF w(1) \<open>w \<noteq> []\<close> h] have "toks (tl w)" .
    moreover from True t have "p6 = ''^'' @ tl w @ suf" by (simp add: p6_def)
    ultimately show ?thesis by blast
  next
    case False
    then have "p6 = ''(?:^|/)'' @ w @ suf" using w(3) by (auto simp: p6_def)
    with w(1) show ?thesis by blast
  qed
  with w(2) g show ?thesis by auto
qed

lemma glob_to_regex_compiles: "re_compile (glob_to_regex p) \<noteq> None"
proof (cases "p = []")
  case True
  then show ?thesis by (simp add: glob_to_regex_def re_compile_def parse.simps)
next
  case False
  from glob_shape [OF this] obtain pre w suf where
    "toks w" "pre = ''^'' \<or> pre = ''(?:^|/)''" "suf = [] \<or> suf = ''(?:/.*)?''"
    "glob_to_regex p = pre @ w @ suf @ ''$''" by blast
  with parse_framed show ?thesis by (simp add: re_compile_def)
qed

lemma default_patterns_compile: "\<forall>p \<in> set default_patterns. re_compile p \<noteq> None"
  by code_simp

lemma load_gitignore_compiles:
  "\<forall>p \<in> set (load_gitignore gitignore ignore_patterns). re_compile p \<noteq> None"
  using default_patterns_compile glob_to_regex_compiles
  by (auto simp: load_gitignore_def gitignore_patterns_def split: option.splits)

lemma should_ignore_total:
  "\<forall>p \<in> set patterns. re_compile p \<noteq> None \<Longrightarrow> should_ignore patterns path \<noteq> None"
  by (induction patterns) (auto simp: re_search_def split: option.splits bool.splits)

section \<open>Properties of the traversal\<close>

text \<open>The prefix that the paths below a directory share.\<close>

definition pre :: "string \<Rightarrow> string" where
  "pre dirpath = (if dirpath = [] then [] else dirpath @ ''/'')"

lemma join_path_pre: "join_path dirpath name = pre dirpath @ name"
  by (simp add: join_path_def pre_def)

lemma pre_join_path: "name \<noteq> [] \<Longrightarrow> pre (join_path dirpath name) = pre dirpath @ name @ ''/''"
  by (simp add: join_path_def pre_def)

lemma slash_prefix:
  assumes "prefix (a @ ''/'') (b @ ''/'')" and "CHR ''/'' \<notin> set b"
  shows "a = b"
proof -
  from assms(1) obtain z where z: "b @ ''/'' = a @ ''/'' @ z" by (auto simp: prefix_def)
  show ?thesis
  proof (cases z rule: rev_cases)
    case Nil
    with z show ?thesis by simp
  next
    case (snoc z' c)
    with z have "b = a @ ''/'' @ z'" by simp
    with assms(2) show ?thesis by simp
  qed
qed

text \<open>
  The paths recorded in a state, and the agreement of its two parts: each section of
  \<open>flattened_content\<close> is the section of the entry of \<open>file_stats\<close> at the same
  position, and the line count of the entry is that of the body in the section.
\<close>

definition paths :: "state \<Rightarrow> string set" where
  "paths st = fst ` set (file_stats st)"

definition consistent :: "state \<Rightarrow> bool" where
  "consistent st =
     list_all2 (\<lambda>section entry. \<exists>body. section = file_section (fst entry) body \<and>
                  lines (snd entry) = length (splitlines body))
       (flattened_content st) (file_stats st)"

text \<open>The files of a tree, each under its path relative to the directory the walk starts from.\<close>

fun all_files :: "string \<Rightarrow> dir \<Rightarrow> (string \<times> nat \<times> string option) list" where
  "all_files dirpath (Directory filenames dirnames) =
     map (\<lambda>f. (join_path dirpath (fst f), snd f)) filenames @
     concat (map (\<lambda>d. all_files (join_path dirpath (fst d)) (snd d)) dirnames)"

text \<open>
  A section and an entry that record a file of \<open>F\<close>: the file is readable, the body of the
  section is what lines 250 to 253 make of its normalised content, that is the content
  itself or, above the limit, the cut content with the marker, and the entry holds the
  size of the file, the estimate of the normalised content, taken before the cut, and
  the number of lines of the body.
\<close>

definition recorded ::
  "config \<Rightarrow> (string \<times> nat \<times> string option) set \<Rightarrow> string \<Rightarrow> string \<times> FileStats \<Rightarrow> bool" where
  "recorded cfg F section entry =
     (\<exists>sz content body.
        (fst entry, sz, Some content) \<in> F \<and>
        (if int (estimate_tokens (clean_code content (fst entry))) > max_token_length cfg
         then truncate_content (clean_code content (fst entry))
                (estimate_tokens (clean_code content (fst entry))) (max_token_length cfg)
         else Some (clean_code content (fst entry))) = Some body \<and>
        section = file_section (fst entry) body \<and>
        snd entry = \<lparr>size' = sz, tokens = estimate_tokens (clean_code content (fst entry)),
                      lines = length (splitlines body)\<rparr>)"

definition tracked :: "config \<Rightarrow> (string \<times> nat \<times> string option) set \<Rightarrow> state \<Rightarrow> bool" where
  "tracked cfg F st = list_all2 (recorded cfg F) (flattened_content st) (file_stats st)"

lemma tracked_consistent:
  assumes "tracked cfg F st"
  shows "consistent st"
  using assms unfolding tracked_def consistent_def
proof (rule list_all2_mono)
  fix x y
  assume "recorded cfg F x y"
  then show "\<exists>body. x = file_section (fst y) body \<and> lines (snd y) = length (splitlines body)"
    unfolding recorded_def by auto
qed

lemma all_files_file:
  "f \<in> set fs \<Longrightarrow> (join_path dp (fst f), snd f) \<in> set (all_files dp (Directory fs ds))"
  by auto

lemma all_files_subdir:
  "d \<in> set ds \<Longrightarrow>
   set (all_files (join_path dp (fst d)) (snd d)) \<subseteq> set (all_files dp (Directory fs ds))"
  by auto

lemma update_new: "k \<notin> fst ` set al \<Longrightarrow> AList.update k v al = al @ [(k, v)]"
  by (induction al) auto

lemma process_file_cases:
  "process_file cfg p sz c st = st \<or>
   (\<exists>content body. c = Some content \<and>
      (if int (estimate_tokens (clean_code content p)) > max_token_length cfg
       then truncate_content (clean_code content p) (estimate_tokens (clean_code content p))
              (max_token_length cfg)
       else Some (clean_code content p)) = Some body \<and>
      process_file cfg p sz c st =
        st\<lparr>file_stats :=
             AList.update p
               \<lparr>size' = sz, tokens = estimate_tokens (clean_code content p),
                lines = length (splitlines body)\<rparr> (file_stats st),
           flattened_content := flattened_content st @ [file_section p body]\<rparr>)"
proof (cases "process_file cfg p sz c st = st")
  case True
  then show ?thesis by simp
next
  case False
  then obtain content where c: "c = Some content"
    by (cases c) (auto simp: process_file_def Let_def)
  let ?cl = "clean_code content p"
  let ?n = "estimate_tokens ?cl"
  let ?b = "if int ?n > max_token_length cfg
            then truncate_content ?cl ?n (max_token_length cfg) else Some ?cl"
  from False c obtain body where b: "?b = Some body"
    by (cases ?b) (auto simp: process_file_def Let_def split: if_splits)
  with False c have "process_file cfg p sz c st =
      st\<lparr>file_stats := AList.update p \<lparr>size' = sz, tokens = ?n, lines = length (splitlines body)\<rparr>
             (file_stats st),
         flattened_content := flattened_content st @ [file_section p body]\<rparr>"
    by (auto simp: process_file_def Let_def split: if_splits)
  with c b show ?thesis by blast
qed

lemma process_file_paths:
  "paths (process_file cfg p sz c st) = paths st \<or>
   paths (process_file cfg p sz c st) = insert p (paths st)"
proof -
  from process_file_cases [of cfg p sz c st] show ?thesis
  proof
    assume "process_file cfg p sz c st = st"
    then show ?thesis by simp
  next
    assume "\<exists>content body. c = Some content \<and>
      (if int (estimate_tokens (clean_code content p)) > max_token_length cfg
       then truncate_content (clean_code content p) (estimate_tokens (clean_code content p))
              (max_token_length cfg)
       else Some (clean_code content p)) = Some body \<and>
      process_file cfg p sz c st =
        st\<lparr>file_stats :=
             AList.update p
               \<lparr>size' = sz, tokens = estimate_tokens (clean_code content p),
                lines = length (splitlines body)\<rparr> (file_stats st),
           flattened_content := flattened_content st @ [file_section p body]\<rparr>"
    then obtain stats body where e: "process_file cfg p sz c st =
        st\<lparr>file_stats := AList.update p stats (file_stats st),
           flattened_content := flattened_content st @ [file_section p body]\<rparr>" by blast
    have "paths (process_file cfg p sz c st) = insert p (paths st)"
      unfolding e paths_def by (simp add: dom_update)
    then show ?thesis by blast
  qed
qed

lemma process_file_tracked:
  assumes "tracked cfg F st" and "p \<notin> paths st" and "(p, sz, c) \<in> F"
  shows "tracked cfg F (process_file cfg p sz c st)"
proof -
  from process_file_cases [of cfg p sz c st] show ?thesis
  proof
    assume "process_file cfg p sz c st = st"
    with assms(1) show ?thesis by simp
  next
    assume "\<exists>content body. c = Some content \<and>
      (if int (estimate_tokens (clean_code content p)) > max_token_length cfg
       then truncate_content (clean_code content p) (estimate_tokens (clean_code content p))
              (max_token_length cfg)
       else Some (clean_code content p)) = Some body \<and>
      process_file cfg p sz c st =
        st\<lparr>file_stats :=
             AList.update p
               \<lparr>size' = sz, tokens = estimate_tokens (clean_code content p),
                lines = length (splitlines body)\<rparr> (file_stats st),
           flattened_content := flattened_content st @ [file_section p body]\<rparr>"
    then obtain content body where c: "c = Some content"
      and b: "(if int (estimate_tokens (clean_code content p)) > max_token_length cfg
       then truncate_content (clean_code content p) (estimate_tokens (clean_code content p))
              (max_token_length cfg)
       else Some (clean_code content p)) = Some body"
      and e: "process_file cfg p sz c st =
        st\<lparr>file_stats :=
             AList.update p
               \<lparr>size' = sz, tokens = estimate_tokens (clean_code content p),
                lines = length (splitlines body)\<rparr> (file_stats st),
           flattened_content := flattened_content st @ [file_section p body]\<rparr>" by blast
    let ?stats = "\<lparr>size' = sz, tokens = estimate_tokens (clean_code content p),
                lines = length (splitlines body)\<rparr>"
    from assms(2) have u: "AList.update p ?stats (file_stats st) = file_stats st @ [(p, ?stats)]"
      by (simp add: update_new paths_def)
    from assms(3) c have "(p, sz, Some content) \<in> F" by simp
    with b have "recorded cfg F (file_section p body) (p, ?stats)"
      unfolding recorded_def fst_conv snd_conv by blast
    with assms(1) show ?thesis
      by (simp add: tracked_def e u list_all2_appendI)
  qed
qed

lemma process_files_paths:
  "process_files cfg rules dp fs st = Some st' \<Longrightarrow>
   paths st \<subseteq> paths st' \<and> paths st' \<subseteq> paths st \<union> (\<lambda>f. join_path dp (fst f)) ` set fs"
proof (induction fs arbitrary: st)
  case Nil
  then show ?case by simp
next
  case (Cons f fs)
  let ?p = "join_path dp (fst f)"
  from Cons.prems obtain ignored where
    r: "process_files cfg rules dp fs
          (if ignored then st else process_file cfg ?p (fst (snd f)) (snd (snd f)) st) = Some st'"
    by (auto simp: Let_def split: option.splits)
  let ?st = "if ignored then st else process_file cfg ?p (fst (snd f)) (snd (snd f)) st"
  from process_file_paths [of cfg ?p "fst (snd f)" "snd (snd f)" st]
  have "paths st \<subseteq> paths ?st \<and> paths ?st \<subseteq> insert ?p (paths st)" by auto
  with Cons.IH [OF r] show ?case by auto
qed

lemma process_files_tracked:
  "distinct (map fst fs) \<Longrightarrow> tracked cfg F st \<Longrightarrow>
   \<forall>f \<in> set fs. join_path dp (fst f) \<notin> paths st \<Longrightarrow>
   \<forall>f \<in> set fs. (join_path dp (fst f), snd f) \<in> F \<Longrightarrow>
   process_files cfg rules dp fs st = Some st' \<Longrightarrow> tracked cfg F st'"
proof (induction fs arbitrary: st)
  case Nil
  then show ?case by simp
next
  case (Cons f fs)
  let ?p = "join_path dp (fst f)"
  from Cons.prems(5) obtain ignored where
    r: "process_files cfg rules dp fs
          (if ignored then st else process_file cfg ?p (fst (snd f)) (snd (snd f)) st) = Some st'"
    by (auto simp: Let_def split: option.splits)
  let ?st = "if ignored then st else process_file cfg ?p (fst (snd f)) (snd (snd f)) st"
  from Cons.prems(4) have "(?p, fst (snd f), snd (snd f)) \<in> F" by simp
  with Cons.prems(2,3) have c: "tracked cfg F ?st" by (simp add: process_file_tracked)
  from process_file_paths [of cfg ?p "fst (snd f)" "snd (snd f)" st]
  have sub: "paths ?st \<subseteq> insert ?p (paths st)" by auto
  have "\<forall>g \<in> set fs. join_path dp (fst g) \<notin> paths ?st"
  proof
    fix g assume g: "g \<in> set fs"
    then have "fst g \<in> fst ` set fs" by (rule imageI)
    moreover from Cons.prems(1) have "fst f \<notin> fst ` set fs" by simp
    ultimately have "fst g \<noteq> fst f" by metis
    then have "join_path dp (fst g) \<noteq> ?p" by (simp add: join_path_pre)
    moreover from g Cons.prems(3) have "join_path dp (fst g) \<notin> paths st" by simp
    ultimately show "join_path dp (fst g) \<notin> paths ?st" using sub by blast
  qed
  with Cons.IH [OF _ c _ _ r] Cons.prems(1,4) show ?case by simp
qed

lemma process_files_total:
  "\<forall>path. should_ignore rules path \<noteq> None \<Longrightarrow> process_files cfg rules dp fs st \<noteq> None"
  by (induction fs arbitrary: st) (auto simp: Let_def split: option.splits)

lemma filter_dirs_total:
  "\<forall>path. should_ignore rules path \<noteq> None \<Longrightarrow> filter_dirs rules dp ds \<noteq> None"
  by (induction ds) (auto split: option.splits)

lemma filter_dirs_kept:
  "filter_dirs rules dp ds = Some kept \<Longrightarrow> d \<in> set kept \<Longrightarrow>
   should_ignore rules (join_path dp (fst d)) = Some False"
  by (induction ds arbitrary: kept) (auto split: option.splits if_splits)

lemma filter_dirs_distinct:
  "filter_dirs rules dp ds = Some kept \<Longrightarrow> distinct (map fst ds) \<Longrightarrow> distinct (map fst kept)"
proof (induction ds arbitrary: kept)
  case Nil
  then show ?case by simp
next
  case (Cons d ds)
  from Cons.prems(1) obtain ignored kept' where
    k: "filter_dirs rules dp ds = Some kept'" "kept = (if ignored then kept' else d # kept')"
    by (auto split: option.splits)
  from Cons.prems(2) have d: "fst d \<notin> fst ` set ds" and "distinct (map fst ds)" by simp_all
  with Cons.IH [OF k(1)] have dk: "distinct (map fst kept')" by simp
  from filter_dirs_subset [OF k(1)] d have "fst d \<notin> fst ` set kept'" by blast
  with dk k(2) show ?case by simp
qed

lemma distinct_sort_key_fst: "distinct (map fst xs) \<Longrightarrow> distinct (map fst (sort_key fst xs))"
  by (simp add: distinct_map)

text \<open>
  A path lies inside a directory when it continues the directory's prefix with a name;
  it is unpruned below a directory when \<open>_should_ignore\<close> is false for every directory
  between the two.
\<close>

definition inside :: "string \<Rightarrow> string \<Rightarrow> bool" where
  "inside dp k \<longleftrightarrow> (\<exists>r. r \<noteq> [] \<and> hd r \<noteq> CHR ''/'' \<and> k = pre dp @ r)"

definition unpruned :: "string list \<Rightarrow> string \<Rightarrow> string \<Rightarrow> bool" where
  "unpruned rules dp k \<longleftrightarrow>
     (\<forall>q. q \<noteq> [] \<longrightarrow> prefix (pre dp @ q @ ''/'') k \<longrightarrow>
        should_ignore rules (pre dp @ q) = Some False)"

lemma name_hd: "name \<noteq> [] \<Longrightarrow> CHR ''/'' \<notin> set name \<Longrightarrow> hd name \<noteq> CHR ''/''"
  by (cases name) auto

lemma inside_file:
  "name \<noteq> [] \<Longrightarrow> CHR ''/'' \<notin> set name \<Longrightarrow> inside dp (join_path dp name)"
  unfolding inside_def join_path_pre using name_hd by blast

lemma unpruned_file:
  assumes "CHR ''/'' \<notin> set name"
  shows "unpruned rules dp (join_path dp name)"
  unfolding unpruned_def join_path_pre
proof (intro allI impI)
  fix q assume "prefix (pre dp @ q @ ''/'') (pre dp @ name)"
  then have "prefix (q @ ''/'') name" by simp
  then have "set (q @ ''/'') \<subseteq> set name" by (rule set_mono_prefix)
  then have "CHR ''/'' \<in> set name" by simp
  with assms show "should_ignore rules (pre dp @ q) = Some False" by simp
qed

lemma inside_subdir:
  assumes "name \<noteq> []" and "CHR ''/'' \<notin> set name" and "inside (join_path dp name) k"
  shows "inside dp k"
proof -
  from assms(3) obtain r where "k = pre (join_path dp name) @ r"
    unfolding inside_def by blast
  then have "k = (pre dp @ name @ ''/'') @ r" unfolding pre_join_path [OF assms(1)] .
  then have k: "k = pre dp @ (name @ ''/'' @ r)" by simp
  have "hd (name @ ''/'' @ r) = hd name" using assms(1) by (rule hd_append2)
  with name_hd [OF assms(1,2)] have h: "hd (name @ ''/'' @ r) \<noteq> CHR ''/''" by simp
  from assms(1) have n: "name @ ''/'' @ r \<noteq> []" by simp
  show ?thesis unfolding inside_def
  proof (intro exI conjI)
    show "name @ ''/'' @ r \<noteq> []" by (rule n)
    show "hd (name @ ''/'' @ r) \<noteq> CHR ''/''" by (rule h)
    show "k = pre dp @ name @ ''/'' @ r" by (rule k)
  qed
qed

lemma unpruned_subdir:
  assumes n: "name \<noteq> []" "CHR ''/'' \<notin> set name"
    and kept: "should_ignore rules (join_path dp name) = Some False"
    and i: "inside (join_path dp name) k" and u: "unpruned rules (join_path dp name) k"
  shows "unpruned rules dp k"
  unfolding unpruned_def
proof (intro allI impI)
  fix q assume q: "q \<noteq> []" and p: "prefix (pre dp @ q @ ''/'') k"
  from i obtain r where r: "r \<noteq> []" "hd r \<noteq> CHR ''/''" "k = pre dp @ name @ ''/'' @ r"
    unfolding inside_def by (auto simp: pre_join_path [OF n(1)])
  from p r(3) have pq: "prefix (q @ ''/'') (name @ ''/'' @ r)" by simp
  have "prefix (name @ ''/'') (name @ ''/'' @ r)" by simp
  with pq have "prefix (q @ ''/'') (name @ ''/'') \<or> prefix (name @ ''/'') (q @ ''/'')"
    by (rule prefix_same_cases)
  then show "should_ignore rules (pre dp @ q) = Some False"
  proof
    assume "prefix (q @ ''/'') (name @ ''/'')"
    from slash_prefix [OF this n(2)] kept show ?thesis by (simp add: join_path_pre)
  next
    assume "prefix (name @ ''/'') (q @ ''/'')"
    then obtain z where "q @ ''/'' = (name @ ''/'') @ z" by (rule prefixE)
    then have z: "q @ ''/'' = name @ ''/'' @ z" by simp
    show ?thesis
    proof (cases z rule: rev_cases)
      case Nil
      with z have "q = name" by simp
      with kept show ?thesis by (simp add: join_path_pre)
    next
      case (snoc z' c)
      with z have qz: "q = name @ ''/'' @ z'" by simp
      show ?thesis
      proof (cases "z' = []")
        case True
        with qz pq have "prefix ''/'' r" by simp
        with r(1,2) show ?thesis by (cases r) auto
      next
        case False
        from p qz have "prefix (pre (join_path dp name) @ z' @ ''/'') k"
          by (simp add: pre_join_path [OF n(1)])
        with u False have "should_ignore rules (pre (join_path dp name) @ z') = Some False"
          unfolding unpruned_def by blast
        with qz show ?thesis by (simp add: pre_join_path [OF n(1)])
      qed
    qed
  qed
qed

lemma siblings_disjoint:
  assumes "n \<noteq> []" "CHR ''/'' \<notin> set n" "m \<noteq> []" "CHR ''/'' \<notin> set m"
    and "inside (join_path dp n) k" and "inside (join_path dp m) k"
  shows "n = m"
proof -
  from assms(5) obtain r where "k = pre dp @ n @ ''/'' @ r"
    unfolding inside_def by (auto simp: pre_join_path [OF assms(1)])
  moreover from assms(6) obtain s where "k = pre dp @ m @ ''/'' @ s"
    unfolding inside_def by (auto simp: pre_join_path [OF assms(3)])
  ultimately have e: "n @ ''/'' @ r = m @ ''/'' @ s" by simp
  have a: "prefix (n @ ''/'') (n @ ''/'' @ r)" by simp
  have b: "prefix (m @ ''/'') (n @ ''/'' @ r)" unfolding e by simp
  from prefix_same_cases [OF a b] show ?thesis
  proof
    assume "prefix (n @ ''/'') (m @ ''/'')"
    from slash_prefix [OF this assms(4)] show ?thesis .
  next
    assume "prefix (m @ ''/'') (n @ ''/'')"
    from slash_prefix [OF this assms(2)] show ?thesis by simp
  qed
qed

lemma file_not_inside_subdir:
  assumes "n \<noteq> []" and "CHR ''/'' \<notin> set f"
  shows "\<not> inside (join_path dp n) (join_path dp f)"
proof
  assume "inside (join_path dp n) (join_path dp f)"
  then obtain r where "join_path dp f = pre (join_path dp n) @ r"
    unfolding inside_def by blast
  then have "join_path dp f = (pre dp @ n @ ''/'') @ r"
    unfolding pre_join_path [OF assms(1)] .
  then have "f = n @ ''/'' @ r" by (simp add: join_path_pre)
  with assms(2) show False by simp
qed

lemma fold_opt_new:
  "fold_opt f xs s = Some s' \<Longrightarrow> k \<in> g s' \<Longrightarrow> k \<notin> g s \<Longrightarrow>
   \<exists>x \<in> set xs. \<exists>a b. f x a = Some b \<and> k \<in> g b \<and> k \<notin> g a"
proof (induction xs arbitrary: s)
  case Nil
  then show ?case by simp
next
  case (Cons x xs)
  from Cons.prems(1) obtain s1 where s1: "f x s = Some s1" "fold_opt f xs s1 = Some s'"
    by (auto split: option.splits)
  show ?case
  proof (cases "k \<in> g s1")
    case True
    with s1(1) Cons.prems(3) show ?thesis by auto
  next
    case False
    from Cons.IH [OF s1(2) Cons.prems(2) False] show ?thesis by auto
  qed
qed

lemma fold_opt_total: "(\<And>x s. x \<in> set xs \<Longrightarrow> f x s \<noteq> None) \<Longrightarrow> fold_opt f xs s \<noteq> None"
  by (induction xs arbitrary: s) (auto split: option.splits)

lemma wf_dir_names:
  assumes "wf_dir (Directory fs ds)"
  shows "distinct (map fst fs)" "distinct (map fst ds)"
    "\<And>f. f \<in> set fs \<Longrightarrow> fst f \<noteq> [] \<and> CHR ''/'' \<notin> set (fst f)"
    "\<And>d. d \<in> set ds \<Longrightarrow> fst d \<noteq> [] \<and> CHR ''/'' \<notin> set (fst d) \<and> wf_dir (snd d)"
  using assms by (auto simp: list_all_iff)

lemma walk_new_paths:
  "wf_dir t \<Longrightarrow> walk cfg rules dp t st = Some st' \<Longrightarrow> k \<in> paths st' \<Longrightarrow> k \<notin> paths st \<Longrightarrow>
   inside dp k \<and> unpruned rules dp k"
proof (induction cfg rules dp t st arbitrary: st' k rule: walk.induct)
  case (1 cfg rules dp fs ds st)
  note wf = wf_dir_names [OF "1.prems"(1)]
  from "1.prems"(2) obtain kept st1 where
    kept: "filter_dirs rules dp ds = Some kept"
    and st1: "process_files cfg rules dp (sort_key fst fs) st = Some st1"
    and fold: "fold_opt (\<lambda>d st. walk cfg rules (join_path dp (fst d)) (snd d) st)
                 (sort_key fst kept) st1 = Some st'"
    by (auto simp: walk.simps split: option.splits)
  show ?case
  proof (cases "k \<in> paths st1")
    case True
    with process_files_paths [OF st1] "1.prems"(4) obtain f where
      f: "f \<in> set fs" "k = join_path dp (fst f)" by auto
    with wf(3) [OF f(1)] show ?thesis by (simp add: inside_file unpruned_file)
  next
    case False
    from fold_opt_new [OF fold, of k paths, OF "1.prems"(3) False] obtain d a b where
      d: "d \<in> set (sort_key fst kept)"
      and w: "walk cfg rules (join_path dp (fst d)) (snd d) a = Some b"
      and k: "k \<in> paths b" "k \<notin> paths a" by blast
    from d have dk: "d \<in> set kept" by simp
    with filter_dirs_subset [OF kept] have dd: "d \<in> set ds" by blast
    note n = wf(4) [OF dd]
    from "1.IH" [OF kept st1 d _ w k] n
    have i: "inside (join_path dp (fst d)) k" and u: "unpruned rules (join_path dp (fst d)) k"
      by simp_all
    from n i have "inside dp k" using inside_subdir by blast
    moreover from n filter_dirs_kept [OF kept dk] i u have "unpruned rules dp k"
      using unpruned_subdir by blast
    ultimately show ?thesis by simp
  qed
qed

lemma walk_tracked:
  "wf_dir t \<Longrightarrow> tracked cfg F st \<Longrightarrow> \<forall>k \<in> paths st. \<not> inside dp k \<Longrightarrow>
   walk cfg rules dp t st = Some st' \<Longrightarrow> set (all_files dp t) \<subseteq> F \<Longrightarrow> tracked cfg F st'"
proof (induction cfg rules dp t st arbitrary: st' rule: walk.induct)
  case (1 cfg rules dp fs ds st)
  note wf = wf_dir_names [OF "1.prems"(1)]
  from "1.prems"(4) obtain kept st1 where
    kept: "filter_dirs rules dp ds = Some kept"
    and st1: "process_files cfg rules dp (sort_key fst fs) st = Some st1"
    and fold: "fold_opt (\<lambda>d st. walk cfg rules (join_path dp (fst d)) (snd d) st)
                 (sort_key fst kept) st1 = Some st'"
    by (auto simp: walk.simps split: option.splits)
  have fresh: "\<forall>f \<in> set (sort_key fst fs). join_path dp (fst f) \<notin> paths st"
  proof
    fix f assume "f \<in> set (sort_key fst fs)"
    then have "f \<in> set fs" by simp
    from wf(3) [OF this] have "inside dp (join_path dp (fst f))" by (simp add: inside_file)
    with "1.prems"(3) show "join_path dp (fst f) \<notin> paths st" by blast
  qed
  from wf(1) have dist: "distinct (map fst (sort_key fst fs))" by (rule distinct_sort_key_fst)
  have known: "\<forall>f \<in> set (sort_key fst fs). (join_path dp (fst f), snd f) \<in> F"
  proof
    fix f assume "f \<in> set (sort_key fst fs)"
    then have "f \<in> set fs" by simp
    from all_files_file [OF this] "1.prems"(5) show "(join_path dp (fst f), snd f) \<in> F" by blast
  qed
  from process_files_tracked [OF dist "1.prems"(2) fresh known st1]
  have c1: "tracked cfg F st1" .
  have kept_ds: "set kept \<subseteq> set ds" using filter_dirs_subset [OF kept] .
  have p1: "\<forall>k \<in> paths st1. \<forall>d \<in> set kept. \<not> inside (join_path dp (fst d)) k"
  proof (intro ballI)
    fix k d assume k: "k \<in> paths st1" and d: "d \<in> set kept"
    with kept_ds have "d \<in> set ds" by blast
    note n = wf(4) [OF this]
    show "\<not> inside (join_path dp (fst d)) k"
    proof (cases "k \<in> paths st")
      case True
      with "1.prems"(3) have "\<not> inside dp k" by simp
      with n show ?thesis using inside_subdir by blast
    next
      case False
      with process_files_paths [OF st1] k obtain f where
        f: "f \<in> set fs" "k = join_path dp (fst f)" by auto
      from wf(3) [OF f(1)] n f(2) show ?thesis by (simp add: file_not_inside_subdir)
    qed
  qed
  have step: "set xs \<subseteq> set kept \<Longrightarrow> distinct (map fst xs) \<Longrightarrow> tracked cfg F s \<Longrightarrow>
      \<forall>k \<in> paths s. \<forall>d \<in> set xs. \<not> inside (join_path dp (fst d)) k \<Longrightarrow>
      fold_opt (\<lambda>d st. walk cfg rules (join_path dp (fst d)) (snd d) st) xs s = Some s' \<Longrightarrow>
      tracked cfg F s'" for xs s s'
  proof (induction xs arbitrary: s)
    case Nil
    then show ?case by simp
  next
    case (Cons x xs)
    from Cons.prems(5) obtain s1 where
      w: "walk cfg rules (join_path dp (fst x)) (snd x) s = Some s1"
      and r: "fold_opt (\<lambda>d st. walk cfg rules (join_path dp (fst d)) (snd d) st) xs s1 = Some s'"
      by (auto split: option.splits)
    from Cons.prems(1) have xk: "x \<in> set kept" by simp
    then have xs: "x \<in> set (sort_key fst kept)" by simp
    from xk kept_ds have xd: "x \<in> set ds" by blast
    note nx = wf(4) [OF xd]
    from all_files_subdir [OF xd] "1.prems"(5)
    have sub: "set (all_files (join_path dp (fst x)) (snd x)) \<subseteq> F" by blast
    from Cons.prems(4) have "\<forall>k \<in> paths s. \<not> inside (join_path dp (fst x)) k" by simp
    from "1.IH" [OF kept st1 xs _ Cons.prems(3) this w sub] nx have c: "tracked cfg F s1" by simp
    have "\<forall>k \<in> paths s1. \<forall>d \<in> set xs. \<not> inside (join_path dp (fst d)) k"
    proof (intro ballI)
      fix k d assume k: "k \<in> paths s1" and d: "d \<in> set xs"
      with Cons.prems(1) kept_ds have "d \<in> set ds" by auto
      note nd = wf(4) [OF this]
      from d have "fst d \<in> fst ` set xs" by (rule imageI)
      moreover from Cons.prems(2) have "fst x \<notin> fst ` set xs" by simp
      ultimately have ne: "fst x \<noteq> fst d" by metis
      show "\<not> inside (join_path dp (fst d)) k"
      proof (cases "k \<in> paths s")
        case True
        with Cons.prems(4) d show ?thesis by simp
      next
        case False
        from walk_new_paths [OF _ w k False] nx have "inside (join_path dp (fst x)) k" by simp
        with siblings_disjoint [of "fst x" "fst d" dp k] nx nd ne show ?thesis by blast
      qed
    qed
    with Cons.IH [OF _ _ c _ r] Cons.prems(1,2) show ?case by simp
  qed
  have "set (sort_key fst kept) \<subseteq> set kept" by simp
  moreover from filter_dirs_distinct [OF kept wf(2)]
  have "distinct (map fst (sort_key fst kept))" by (rule distinct_sort_key_fst)
  moreover from p1 have
    "\<forall>k \<in> paths st1. \<forall>d \<in> set (sort_key fst kept). \<not> inside (join_path dp (fst d)) k"
    by simp
  ultimately show ?case using step c1 fold by blast
qed

lemma walk_total:
  "\<forall>path. should_ignore rules path \<noteq> None \<Longrightarrow> walk cfg rules dp t st \<noteq> None"
proof (induction cfg rules dp t st rule: walk.induct)
  case (1 cfg rules dp fs ds st)
  from filter_dirs_total [OF "1.prems"] obtain kept where
    kept: "filter_dirs rules dp ds = Some kept" by blast
  from process_files_total [OF "1.prems"] obtain st1 where
    st1: "process_files cfg rules dp (sort_key fst fs) st = Some st1" by blast
  have "fold_opt (\<lambda>d st. walk cfg rules (join_path dp (fst d)) (snd d) st)
          (sort_key fst kept) st1 \<noteq> None"
    by (rule fold_opt_total) (rule "1.IH" [OF kept st1 _ "1.prems"])
  with kept st1 show ?case by (simp add: walk.simps)
qed

lemma structure_lines_mono: "set acc \<subseteq> set (structure_lines xs acc last_dir)"
proof (induction xs arbitrary: acc last_dir)
  case Nil
  show ?case by simp
next
  case (Cons x xs)
  obtain p s where x: "x = (p, s)" by (cases x)
  let ?s1 = "if Some (dirname p) \<noteq> last_dir \<and> dirname p \<noteq> []
             then acc @ [dir_line (dirname p)] else acc"
  have "set acc \<subseteq> set (?s1 @ [file_line p s])" by auto
  also have "\<dots> \<subseteq> set (structure_lines xs (?s1 @ [file_line p s]) (Some (dirname p)))"
    by (rule Cons.IH)
  finally show ?case by (simp add: x Let_def)
qed

lemma structure_lines_entry:
  "(p, s) \<in> set xs \<Longrightarrow> file_line p s \<in> set (structure_lines xs acc last_dir)"
proof (induction xs arbitrary: acc last_dir)
  case Nil
  then show ?case by simp
next
  case (Cons x xs)
  obtain p' s' where x: "x = (p', s')" by (cases x)
  let ?s1 = "if Some (dirname p') \<noteq> last_dir \<and> dirname p' \<noteq> []
             then acc @ [dir_line (dirname p')] else acc"
  have e: "structure_lines (x # xs) acc last_dir =
      structure_lines xs (?s1 @ [file_line p' s']) (Some (dirname p'))"
    by (simp add: x Let_def)
  show ?case
  proof (cases "(p, s) = x")
    case True
    with x have "file_line p s \<in> set (?s1 @ [file_line p' s'])" by simp
    with structure_lines_mono [of "?s1 @ [file_line p' s']" xs "Some (dirname p')"]
    show ?thesis unfolding e by blast
  next
    case False
    with Cons.prems have "(p, s) \<in> set xs" by simp
    from Cons.IH [OF this] show ?thesis unfolding e .
  qed
qed

section \<open>Properties of a whole run\<close>

lemma example_tree_wf: "wf_dir example_tree"
  by code_simp

lemma example_build_ignored:
  "should_ignore (load_gitignore (Some []) []) ''build'' = Some True"
  by code_simp

lemma example_flatten:
  "map_option (\<lambda>st. map fst (file_stats st)) (flatten example_config (Some []) [] example_tree) =
   Some [''main.py'', ''src/app.js'']"
  by code_simp

lemma rules_total: "should_ignore (load_gitignore gitignore ignore_patterns) path \<noteq> None"
  by (rule should_ignore_total) (rule load_gitignore_compiles)

lemma flatten_total: "flatten cfg gitignore ignore_patterns root \<noteq> None"
  unfolding flatten_def by (rule walk_total) (simp add: rules_total)

lemma tracked_empty: "tracked cfg F \<lparr>file_stats = [], flattened_content = []\<rparr>"
  by (simp add: tracked_def)

lemma flatten_tracked:
  assumes "wf_dir root" and "flatten cfg gitignore ignore_patterns root = Some st"
  shows "tracked cfg (set (all_files [] root)) st"
proof -
  from assms(2) have w: "walk cfg (load_gitignore gitignore ignore_patterns) [] root
      \<lparr>file_stats = [], flattened_content = []\<rparr> = Some st" by (simp add: flatten_def)
  from walk_tracked [OF assms(1) tracked_empty _ w] show ?thesis
    by (simp add: paths_def)
qed

lemma paths_empty: "paths \<lparr>file_stats = [], flattened_content = []\<rparr> = {}"
  by (simp add: paths_def)

lemma list_all2_and:
  "list_all2 R xs ys \<Longrightarrow> \<forall>y \<in> set ys. Q y \<Longrightarrow> list_all2 (\<lambda>x y. R x y \<and> Q y) xs ys"
  by (induction rule: list_all2_induct) auto

text \<open>
  C3: for every pattern string, empty, blank or pathological, the compiled pattern is
  one that \<open>re\<close> accepts, so that \<open>_should_ignore\<close> raises on no path, whatever the
  exclusion file and the patterns of the caller, and the traversal completes. No
  pattern fails to compile: the escaping of \<open>_glob_to_regex\<close> leaves nothing for \<open>re\<close> to
  reject, and the code needs no fallback for a rule that matches nothing.
\<close>

theorem patterns_never_raise:
  "re_compile (glob_to_regex pattern) \<noteq> None \<and>
   should_ignore (load_gitignore gitignore ignore_patterns) path \<noteq> None \<and>
   flatten cfg gitignore ignore_patterns root \<noteq> None"
  using glob_to_regex_compiles rules_total flatten_total by (intro conjI)

text \<open>
  C5, as stated, fails for a truncated file: the token count in its structure line is
  the estimate of the normalised content before the cut (C9), not that of the body which
  the "Source Code" part shows. With a limit of 2, the file \<open>a.py\<close> with the content
  \<open>x = 1\<close> (estimate 3) has the section body \<open>x =\<close> followed by the marker, which
  estimates to 16 and has 2 lines; its structure line says 2 lines and 3 tokens.
\<close>

theorem annotated_tokens_before_cut:
  "flatten \<lparr>max_file_size = 100, max_token_length = 2\<rparr> (Some []) []
       (Directory [(''a.py'', 5, Some ''x = 1'')] []) =
     Some \<lparr>file_stats = [(''a.py'', \<lparr>size' = 5, tokens = 3, lines = 2\<rparr>)],
           flattened_content = [file_section ''a.py'' (''x ='' @ MARKER)]\<rparr> \<and>
   generate_project_structure
       \<lparr>file_stats = [(''a.py'', \<lparr>size' = 5, tokens = 3, lines = 2\<rparr>)],
        flattened_content = [file_section ''a.py'' (''x ='' @ MARKER)]\<rparr> =
     FILE_ICON @ cp '' a.py (2 lines, ~3 tokens)'' \<and>
   length (splitlines (''x ='' @ MARKER)) = 2 \<and>
   estimate_tokens (''x ='' @ MARKER) = 16"
  by code_simp

text \<open>
  C5, amended. After a run on any tree, the sections of the "Source Code" part and the
  entries of \<open>file_stats\<close> correspond one to one, in order, and each pair records a
  readable file of the tree: the body of the section is the normalised content of the
  file, cut and marked when its estimate is above the limit; the "Project Structure"
  part has a line for the file, which shows the number of lines of that body and the
  estimate of the normalised content before the cut (so the estimate of the body, unless
  the file was truncated). The text that is written has the summary, the structure and
  the sections in their places, and the totals of the summary are the number of
  sections and the sums of the lines, tokens and sizes of the entries, the size in KB.
\<close>

theorem report_consistent:
  assumes "wf_dir root"
  shows "\<exists>st. flatten cfg gitignore ignore_patterns root = Some st \<and>
     list_all2
       (\<lambda>section entry. \<exists>sz content body.
          (fst entry, sz, Some content) \<in> set (all_files [] root) \<and>
          (if int (estimate_tokens (clean_code content (fst entry))) > max_token_length cfg
           then truncate_content (clean_code content (fst entry))
                  (estimate_tokens (clean_code content (fst entry))) (max_token_length cfg)
           else Some (clean_code content (fst entry))) = Some body \<and>
          section = file_section (fst entry) body \<and>
          snd entry = \<lparr>size' = sz, tokens = estimate_tokens (clean_code content (fst entry)),
                        lines = length (splitlines body)\<rparr> \<and>
          cp (concat (replicate (parts_count (fst entry) - 1) ''  '')) @ FILE_ICON @
          cp ('' '' @ basename (fst entry) @ '' ('' @ str_nat (length (splitlines body)) @
              '' lines, ~'' @ str_nat (estimate_tokens (clean_code content (fst entry))) @
              '' tokens)'')
            \<in> set (structure_lines (sort_key fst (file_stats st)) [] None))
       (flattened_content st) (file_stats st) \<and>
     save_output st =
       cp ''# Codebase Flattened for Agentic Workflow\<newline>\<newline>'' @
       cp ''This file contains the project's source code, optimized for token efficiency:\<newline>'' @
       cp ''- Comments and docstrings have been removed\<newline>'' @
       cp ''- Empty lines have been cleaned up\<newline>'' @
       cp ''- Large files have been truncated\<newline>'' @
       cp ''- Only relevant file types are included\<newline>\<newline>'' @
       cp (''## Project Summary\<newline>\<newline>'' @
           ''- Total files processed: '' @ str_nat (length (flattened_content st)) @ ''\<newline>'' @
           ''- Total lines of code: '' @
              str_nat (sum_list (map (\<lambda>entry. lines (snd entry)) (file_stats st))) @ ''\<newline>'' @
           ''- Estimated total tokens: '' @
              str_nat (sum_list (map (\<lambda>entry. tokens (snd entry)) (file_stats st))) @ ''\<newline>'' @
           ''- Total size: '' @
              kilobytes (sum_list (map (\<lambda>entry. size' (snd entry)) (file_stats st))) @
              '' KB\<newline>'') @
       cp ''\<newline>## Project Structure\<newline>\<newline>'' @
       join (cp ''\<newline>'') (structure_lines (sort_key fst (file_stats st)) [] None) @
       cp ''\<newline>\<newline>## Source Code\<newline>\<newline>'' @
       cp ''Each file is demarcated by a header showing its relative path.\<newline>\<newline>'' @
       cp ''--------------------\<newline>\<newline>'' @
       cp (join ''\<newline>'' (flattened_content st))"
proof -
  from flatten_total obtain st where st: "flatten cfg gitignore ignore_patterns root = Some st"
    by blast
  from flatten_tracked [OF assms st] have t: "tracked cfg (set (all_files [] root)) st" .
  let ?S = "structure_lines (sort_key fst (file_stats st)) [] None"
  have "\<forall>entry \<in> set (file_stats st). file_line (fst entry) (snd entry) \<in> set ?S"
    by (auto intro!: structure_lines_entry)
  with t have "list_all2
      (\<lambda>section entry. recorded cfg (set (all_files [] root)) section entry \<and>
         file_line (fst entry) (snd entry) \<in> set ?S)
      (flattened_content st) (file_stats st)"
    unfolding tracked_def by (rule list_all2_and)
  then have l: "list_all2
       (\<lambda>section entry. \<exists>sz content body.
          (fst entry, sz, Some content) \<in> set (all_files [] root) \<and>
          (if int (estimate_tokens (clean_code content (fst entry))) > max_token_length cfg
           then truncate_content (clean_code content (fst entry))
                  (estimate_tokens (clean_code content (fst entry))) (max_token_length cfg)
           else Some (clean_code content (fst entry))) = Some body \<and>
          section = file_section (fst entry) body \<and>
          snd entry = \<lparr>size' = sz, tokens = estimate_tokens (clean_code content (fst entry)),
                        lines = length (splitlines body)\<rparr> \<and>
          cp (concat (replicate (parts_count (fst entry) - 1) ''  '')) @ FILE_ICON @
          cp ('' '' @ basename (fst entry) @ '' ('' @ str_nat (length (splitlines body)) @
              '' lines, ~'' @ str_nat (estimate_tokens (clean_code content (fst entry))) @
              '' tokens)'')
            \<in> set ?S)
       (flattened_content st) (file_stats st)"
  proof (rule list_all2_mono)
    fix sect entry
    assume "recorded cfg (set (all_files [] root)) sect entry \<and>
         file_line (fst entry) (snd entry) \<in> set ?S"
    then obtain sz content body where
      f: "(fst entry, sz, Some content) \<in> set (all_files [] root)"
      and b: "(if int (estimate_tokens (clean_code content (fst entry))) > max_token_length cfg
           then truncate_content (clean_code content (fst entry))
                  (estimate_tokens (clean_code content (fst entry))) (max_token_length cfg)
           else Some (clean_code content (fst entry))) = Some body"
      and sec: "sect = file_section (fst entry) body"
      and e: "snd entry = \<lparr>size' = sz, tokens = estimate_tokens (clean_code content (fst entry)),
                        lines = length (splitlines body)\<rparr>"
      and m: "file_line (fst entry) (snd entry) \<in> set ?S"
      unfolding recorded_def by blast
    from m have "cp (concat (replicate (parts_count (fst entry) - 1) ''  '')) @ FILE_ICON @
          cp ('' '' @ basename (fst entry) @ '' ('' @ str_nat (length (splitlines body)) @
              '' lines, ~'' @ str_nat (estimate_tokens (clean_code content (fst entry))) @
              '' tokens)'') \<in> set ?S"
      by (simp add: file_line_def e)
    with f b sec e show "\<exists>sz content body.
          (fst entry, sz, Some content) \<in> set (all_files [] root) \<and>
          (if int (estimate_tokens (clean_code content (fst entry))) > max_token_length cfg
           then truncate_content (clean_code content (fst entry))
                  (estimate_tokens (clean_code content (fst entry))) (max_token_length cfg)
           else Some (clean_code content (fst entry))) = Some body \<and>
          sect = file_section (fst entry) body \<and>
          snd entry = \<lparr>size' = sz, tokens = estimate_tokens (clean_code content (fst entry)),
                        lines = length (splitlines body)\<rparr> \<and>
          cp (concat (replicate (parts_count (fst entry) - 1) ''  '')) @ FILE_ICON @
          cp ('' '' @ basename (fst entry) @ '' ('' @ str_nat (length (splitlines body)) @
              '' lines, ~'' @ str_nat (estimate_tokens (clean_code content (fst entry))) @
              '' tokens)'')
            \<in> set ?S"
      by blast
  qed
  from t have n: "length (file_stats st) = length (flattened_content st)"
    unfolding tracked_def by (rule list_all2_lengthD [symmetric])
  have g: "generate_summary st =
      ''## Project Summary\<newline>\<newline>'' @
      ''- Total files processed: '' @ str_nat (length (flattened_content st)) @ ''\<newline>'' @
      ''- Total lines of code: '' @
         str_nat (sum_list (map (\<lambda>entry. lines (snd entry)) (file_stats st))) @ ''\<newline>'' @
      ''- Estimated total tokens: '' @
         str_nat (sum_list (map (\<lambda>entry. tokens (snd entry)) (file_stats st))) @ ''\<newline>'' @
      ''- Total size: '' @
         kilobytes (sum_list (map (\<lambda>entry. size' (snd entry)) (file_stats st))) @
         '' KB\<newline>''"
    unfolding generate_summary_def Let_def summary_text_def n case_prod_unfold ..
  have d: "save_output st =
       cp ''# Codebase Flattened for Agentic Workflow\<newline>\<newline>'' @
       cp ''This file contains the project's source code, optimized for token efficiency:\<newline>'' @
       cp ''- Comments and docstrings have been removed\<newline>'' @
       cp ''- Empty lines have been cleaned up\<newline>'' @
       cp ''- Large files have been truncated\<newline>'' @
       cp ''- Only relevant file types are included\<newline>\<newline>'' @
       cp (''## Project Summary\<newline>\<newline>'' @
           ''- Total files processed: '' @ str_nat (length (flattened_content st)) @ ''\<newline>'' @
           ''- Total lines of code: '' @
              str_nat (sum_list (map (\<lambda>entry. lines (snd entry)) (file_stats st))) @ ''\<newline>'' @
           ''- Estimated total tokens: '' @
              str_nat (sum_list (map (\<lambda>entry. tokens (snd entry)) (file_stats st))) @ ''\<newline>'' @
           ''- Total size: '' @
              kilobytes (sum_list (map (\<lambda>entry. size' (snd entry)) (file_stats st))) @
              '' KB\<newline>'') @
       cp ''\<newline>## Project Structure\<newline>\<newline>'' @
       join (cp ''\<newline>'') ?S @
       cp ''\<newline>\<newline>## Source Code\<newline>\<newline>'' @
       cp ''Each file is demarcated by a header showing its relative path.\<newline>\<newline>'' @
       cp ''--------------------\<newline>\<newline>'' @
       cp (join ''\<newline>'' (flattened_content st))"
    unfolding save_output_def generate_project_structure_def g ..
  from st l d show ?thesis by (intro exI [of _ st] conjI)
qed

theorem report_consistent_witness:
  "wf_dir example_tree \<and>
   (\<exists>st. flatten example_config (Some []) [] example_tree = Some st \<and>
     list_all2
       (\<lambda>section entry. \<exists>sz content body.
          (fst entry, sz, Some content) \<in> set (all_files [] example_tree) \<and>
          (if int (estimate_tokens (clean_code content (fst entry))) >
                max_token_length example_config
           then truncate_content (clean_code content (fst entry))
                  (estimate_tokens (clean_code content (fst entry)))
                  (max_token_length example_config)
           else Some (clean_code content (fst entry))) = Some body \<and>
          section = file_section (fst entry) body \<and>
          snd entry = \<lparr>size' = sz, tokens = estimate_tokens (clean_code content (fst entry)),
                        lines = length (splitlines body)\<rparr> \<and>
          cp (concat (replicate (parts_count (fst entry) - 1) ''  '')) @ FILE_ICON @
          cp ('' '' @ basename (fst entry) @ '' ('' @ str_nat (length (splitlines body)) @
              '' lines, ~'' @ str_nat (estimate_tokens (clean_code content (fst entry))) @
              '' tokens)'')
            \<in> set (structure_lines (sort_key fst (file_stats st)) [] None))
       (flattened_content st) (file_stats st) \<and>
     save_output st =
       cp ''# Codebase Flattened for Agentic Workflow\<newline>\<newline>'' @
       cp ''This file contains the project's source code, optimized for token efficiency:\<newline>'' @
       cp ''- Comments and docstrings have been removed\<newline>'' @
       cp ''- Empty lines have been cleaned up\<newline>'' @
       cp ''- Large files have been truncated\<newline>'' @
       cp ''- Only relevant file types are included\<newline>\<newline>'' @
       cp (''## Project Summary\<newline>\<newline>'' @
           ''- Total files processed: '' @ str_nat (length (flattened_content st)) @ ''\<newline>'' @
           ''- Total lines of code: '' @
              str_nat (sum_list (map (\<lambda>entry. lines (snd entry)) (file_stats st))) @ ''\<newline>'' @
           ''- Estimated total tokens: '' @
              str_nat (sum_list (map (\<lambda>entry. tokens (snd entry)) (file_stats st))) @ ''\<newline>'' @
           ''- Total size: '' @
              kilobytes (sum_list (map (\<lambda>entry. size' (snd entry)) (file_stats st))) @
              '' KB\<newline>'') @
       cp ''\<newline>## Project Structure\<newline>\<newline>'' @
       join (cp ''\<newline>'') (structure_lines (sort_key fst (file_stats st)) [] None) @
       cp ''\<newline>\<newline>## Source Code\<newline>\<newline>'' @
       cp ''Each file is demarcated by a header showing its relative path.\<newline>\<newline>'' @
       cp ''--------------------\<newline>\<newline>'' @
       cp (join ''\<newline>'' (flattened_content st)))"
  using example_tree_wf report_consistent [OF example_tree_wf, of example_config "Some []" "[]"]
  by (rule conjI)

text \<open>
  C7: a directory below the root that \<open>_should_ignore\<close> matches contributes nothing:
  no recorded path, and so no section, structure line or summand, lies under it, however
  deep, whatever the files there and whatever the other rules.
\<close>

theorem pruned_directory_excluded:
  assumes "wf_dir root"
    and "should_ignore (load_gitignore gitignore ignore_patterns) q = Some True"
    and "q \<noteq> []"
  shows "\<exists>st. flatten cfg gitignore ignore_patterns root = Some st \<and>
     list_all2
       (\<lambda>section entry. (\<exists>body. section = file_section (fst entry) body \<and>
            lines (snd entry) = length (splitlines body)) \<and>
          \<not> prefix (q @ ''/'') (fst entry))
       (flattened_content st) (file_stats st)"
proof -
  let ?rules = "load_gitignore gitignore ignore_patterns"
  let ?st0 = "\<lparr>file_stats = [], flattened_content = []\<rparr>"
  from flatten_total obtain st where st: "flatten cfg gitignore ignore_patterns root = Some st"
    by blast
  then have w: "walk cfg ?rules [] root ?st0 = Some st" by (simp add: flatten_def)
  from flatten_tracked [OF assms(1) st] have c: "consistent st" by (rule tracked_consistent)
  have "\<forall>entry \<in> set (file_stats st). \<not> prefix (q @ ''/'') (fst entry)"
  proof
    fix entry assume "entry \<in> set (file_stats st)"
    then have "fst entry \<in> paths st" unfolding paths_def by (rule imageI)
    from walk_new_paths [OF assms(1) w this] have "unpruned ?rules [] (fst entry)"
      by (simp add: paths_empty)
    then have "prefix (q @ ''/'') (fst entry) \<longrightarrow> should_ignore ?rules q = Some False"
      using assms(3) unfolding unpruned_def pre_def by simp
    with assms(2) show "\<not> prefix (q @ ''/'') (fst entry)" by simp
  qed
  with c have "list_all2
       (\<lambda>section entry. (\<exists>body. section = file_section (fst entry) body \<and>
            lines (snd entry) = length (splitlines body)) \<and>
          \<not> prefix (q @ ''/'') (fst entry))
       (flattened_content st) (file_stats st)"
    unfolding consistent_def by (rule list_all2_and)
  with st show ?thesis by (intro exI [of _ st] conjI)
qed

theorem pruned_directory_excluded_witness:
  "wf_dir example_tree \<and>
   should_ignore (load_gitignore (Some []) []) ''build'' = Some True \<and>
   (\<exists>st. flatten example_config (Some []) [] example_tree = Some st \<and>
     list_all2
       (\<lambda>section entry. (\<exists>body. section = file_section (fst entry) body \<and>
            lines (snd entry) = length (splitlines body)) \<and>
          \<not> prefix (''build'' @ ''/'') (fst entry))
       (flattened_content st) (file_stats st))"
proof (intro conjI)
  show "wf_dir example_tree" by (rule example_tree_wf)
next
  show "should_ignore (load_gitignore (Some []) []) ''build'' = Some True"
    by (rule example_build_ignored)
next
  have n: "''build'' \<noteq> []" by simp
  show "\<exists>st. flatten example_config (Some []) [] example_tree = Some st \<and>
     list_all2
       (\<lambda>section entry. (\<exists>body. section = file_section (fst entry) body \<and>
            lines (snd entry) = length (splitlines body)) \<and>
          \<not> prefix (''build'' @ ''/'') (fst entry))
       (flattened_content st) (file_stats st)"
    by (rule pruned_directory_excluded [OF example_tree_wf example_build_ignored n])
qed

end
